theory Spec2Isabelle
  imports Main "HOL-Library.Word" "HOL-Library.Sublist"
begin

unbundle bit_operations_syntax

section \<open>The RELP service of skewer: services/network/relp.go\<close>

text \<open>
  A shallow embedding of the RELP ingestion service: the transaction number codec, the
  acknowledgement forwarder (\<open>ackForwarder\<close>), the supervisor's status machine
  (\<open>RelpServiceImpl\<close>), the connection handler (\<open>RelpHandler.HandleConnection\<close>), the
  parser worker (\<open>RelpServiceImpl.Parse\<close>) and the response writer
  (\<open>RelpServiceImpl.handleResponses\<close>).

  Go's \<open>int\<close> is taken as the 64-bit integer of the platforms the service is built for.
  Where a value is only stored and compared (a TXNR once parsed) it is an \<open>int\<close> of HOL
  whose range the parsing function bounds; where bits matter (the codec) it is a
  \<open>64 word\<close>.
\<close>

type_synonym byte = "8 word"
type_synonym uint64 = "64 word"
type_synonym uintptr = "64 word"

subsection \<open>txnr2bytes and bytes2txnr\<close>

text \<open>
  \<open>binary.LittleEndian.PutUint64(b, v)\<close> writes the eight bytes of \<open>v\<close>, lowest first,
  over the first eight bytes of \<open>b\<close>, and panics when \<open>b\<close> is shorter;
  \<open>binary.LittleEndian.Uint64(b)\<close> reads them back, and panics likewise. The panic is
  the value \<open>None\<close>.
\<close>

definition PutUint64 :: "byte list \<Rightarrow> uint64 \<Rightarrow> byte list option" where
  "PutUint64 b v =
     (if length b < 8 then None
      else Some ([ucast v, ucast (drop_bit 8 v), ucast (drop_bit 16 v), ucast (drop_bit 24 v),
                  ucast (drop_bit 32 v), ucast (drop_bit 40 v), ucast (drop_bit 48 v),
                  ucast (drop_bit 56 v)] @ drop 8 b))"

definition Uint64 :: "byte list \<Rightarrow> uint64 option" where
  "Uint64 b =
     (if length b < 8 then None
      else Some (ucast (b ! 0) OR push_bit 8 (ucast (b ! 1)) OR push_bit 16 (ucast (b ! 2))
                 OR push_bit 24 (ucast (b ! 3)) OR push_bit 32 (ucast (b ! 4))
                 OR push_bit 40 (ucast (b ! 5)) OR push_bit 48 (ucast (b ! 6))
                 OR push_bit 56 (ucast (b ! 7))))"

text \<open>
  \<open>txnr2bytes\<close>: \<open>ux := uint64(txnr) << 1; if txnr < 0 { ux = ^ux }\<close>, then the eight
  bytes of \<open>ux\<close> in a fresh slice of length 8. The comparison \<open>txnr < 0\<close> is the signed
  one.
\<close>

definition txnr2bytes :: "64 word \<Rightarrow> byte list option" where
  "txnr2bytes txnr =
     (let bs = replicate 8 (0 :: byte);
          ux = push_bit 1 txnr;
          ux = (if txnr <s 0 then NOT ux else ux)
      in PutUint64 bs ux)"

text \<open>
  \<open>bytes2txnr\<close>: \<open>x := int64(ux >> 1); if ux&1 != 0 { x = ^x }\<close>. The shift is the
  logical one of an unsigned value.
\<close>

definition bytes2txnr :: "byte list \<Rightarrow> 64 word option" where
  "bytes2txnr b =
     (case Uint64 b of
        None \<Rightarrow> None
      | Some ux \<Rightarrow>
          (let x = drop_bit 1 ux;
               x = (if ux AND 1 \<noteq> 0 then NOT x else x)
           in Some x))"

subsection \<open>The integer queue\<close>

text \<open>
  Modelled from the spec: the type \<open>queue.IntQueue\<close> (package utils/queue) with its
  methods \<open>Put\<close>, \<open>Get\<close>, \<open>Peek\<close>, \<open>Dispose\<close> and the function \<open>queue.WaitOne\<close> are not
  among the sources. The specification describes each queue as a disposable FIFO of
  integers; the coordinator's \<open>GetSucc\<close>, \<open>GetFail\<close> and \<open>NextToCommit\<close> are specified
  to answer -1 on an empty queue, which the code of the forwarder does exactly when
  \<open>Get\<close> or \<open>Peek\<close> returns an error, so here both return an error on an empty queue.
  \<open>Put\<close> refuses a disposed queue. \<open>WaitOne\<close> is specified to unblock when either queue
  has an element or one is disposed, and the coordinator's \<open>Wait\<close> to return false when
  the queues are disposed and drained: the answer is \<open>Some True\<close> when an element is
  there, \<open>Some False\<close> when none is and a queue is disposed, and \<open>None\<close> when the caller
  stays blocked.
\<close>

datatype queue_error = ErrQDisposed | ErrQEmpty

record IntQueue =
  items :: "int list"
  disposed :: bool

definition NewIntQueue :: IntQueue where
  "NewIntQueue = \<lparr>items = [], disposed = False\<rparr>"

definition Put :: "IntQueue \<Rightarrow> int \<Rightarrow> IntQueue \<times> queue_error option" where
  "Put q x = (if disposed q then (q, Some ErrQDisposed)
              else (q\<lparr>items := items q @ [x]\<rparr>, None))"

definition Get :: "IntQueue \<Rightarrow> IntQueue \<times> (queue_error + int)" where
  "Get q = (case items q of
              [] \<Rightarrow> (q, Inl (if disposed q then ErrQDisposed else ErrQEmpty))
            | x # xs \<Rightarrow> (q\<lparr>items := xs\<rparr>, Inr x))"

definition Peek :: "IntQueue \<Rightarrow> queue_error + int" where
  "Peek q = (case items q of
               [] \<Rightarrow> Inl (if disposed q then ErrQDisposed else ErrQEmpty)
             | x # xs \<Rightarrow> Inr x)"

definition Dispose :: "IntQueue \<Rightarrow> IntQueue" where
  "Dispose q = q\<lparr>disposed := True\<rparr>"

definition WaitOne :: "IntQueue \<Rightarrow> IntQueue \<Rightarrow> bool option" where
  "WaitOne q1 q2 =
     (if items q1 \<noteq> [] \<or> items q2 \<noteq> [] then Some True
      else if disposed q1 \<or> disposed q2 then Some False
      else None)"

subsection \<open>The acknowledgement forwarder\<close>

text \<open>
  \<open>ackForwarder\<close> holds three \<open>sync.Map\<close>s from connection id to a pointer to an
  \<open>IntQueue\<close>, and the counter \<open>next\<close> (here \<open>next_id\<close>). The queues are objects of
  the heap: \<open>queues\<close> is the store that the pointers index and \<open>nqueues\<close> the number of
  queues allocated so far, so that a queue deleted from its map is still there for
  whoever holds the pointer, disposed or not.
\<close>

type_synonym addr = nat

record ackForwarder =
  succ :: "uintptr \<rightharpoonup> addr"
  fail :: "uintptr \<rightharpoonup> addr"
  comm :: "uintptr \<rightharpoonup> addr"
  next_id :: uintptr
  queues :: "addr \<Rightarrow> IntQueue"
  nqueues :: addr

definition newAckForwarder :: ackForwarder where
  "newAckForwarder =
     \<lparr>succ = Map.empty, fail = Map.empty, comm = Map.empty, next_id = 0,
      queues = (\<lambda>a. NewIntQueue), nqueues = 0\<rparr>"

definition Received :: "ackForwarder \<Rightarrow> uintptr \<Rightarrow> int \<Rightarrow> ackForwarder" where
  "Received f connID txnr =
     (case comm f connID of
        Some c \<Rightarrow> f\<lparr>queues := (queues f)(c := fst (Put (queues f c) txnr))\<rparr>
      | None \<Rightarrow> f)"

definition Commit :: "ackForwarder \<Rightarrow> uintptr \<Rightarrow> ackForwarder" where
  "Commit f connID =
     (case comm f connID of
        Some c \<Rightarrow> f\<lparr>queues := (queues f)(c := fst (Get (queues f c)))\<rparr>
      | None \<Rightarrow> f)"

definition NextToCommit :: "ackForwarder \<Rightarrow> uintptr \<Rightarrow> int" where
  "NextToCommit f connID =
     (case comm f connID of
        Some c \<Rightarrow> (case Peek (queues f c) of Inl err \<Rightarrow> - 1 | Inr nxt \<Rightarrow> nxt)
      | None \<Rightarrow> - 1)"

definition ForwardSucc :: "ackForwarder \<Rightarrow> uintptr \<Rightarrow> int \<Rightarrow> ackForwarder" where
  "ForwardSucc f connID txnr =
     (case succ f connID of
        Some q \<Rightarrow> f\<lparr>queues := (queues f)(q := fst (Put (queues f q) txnr))\<rparr>
      | None \<Rightarrow> f)"

definition GetSucc :: "ackForwarder \<Rightarrow> uintptr \<Rightarrow> int \<times> ackForwarder" where
  "GetSucc f connID =
     (case succ f connID of
        Some q \<Rightarrow>
          (case Get (queues f q) of
             (q', Inl err) \<Rightarrow> (- 1, f\<lparr>queues := (queues f)(q := q')\<rparr>)
           | (q', Inr txnr) \<Rightarrow> (txnr, f\<lparr>queues := (queues f)(q := q')\<rparr>))
      | None \<Rightarrow> (- 1, f))"

definition ForwardFail :: "ackForwarder \<Rightarrow> uintptr \<Rightarrow> int \<Rightarrow> ackForwarder" where
  "ForwardFail f connID txnr =
     (case fail f connID of
        Some q \<Rightarrow> f\<lparr>queues := (queues f)(q := fst (Put (queues f q) txnr))\<rparr>
      | None \<Rightarrow> f)"

definition GetFail :: "ackForwarder \<Rightarrow> uintptr \<Rightarrow> int \<times> ackForwarder" where
  "GetFail f connID =
     (case fail f connID of
        Some q \<Rightarrow>
          (case Get (queues f q) of
             (q', Inl err) \<Rightarrow> (- 1, f\<lparr>queues := (queues f)(q := q')\<rparr>)
           | (q', Inr txnr) \<Rightarrow> (txnr, f\<lparr>queues := (queues f)(q := q')\<rparr>))
      | None \<Rightarrow> (- 1, f))"

text \<open>
  \<open>AddConn\<close>: \<open>atomic.AddUintptr(&f.next, 1)\<close> returns the incremented counter, which
  wraps around as a machine word does; three new queues are allocated and stored, in the
  order success, failure, received.
\<close>

definition AddConn :: "ackForwarder \<Rightarrow> uintptr \<times> ackForwarder" where
  "AddConn f =
     (let connID = next_id f + 1;
          a = nqueues f
      in (connID,
          f\<lparr>succ := (succ f)(connID \<mapsto> a),
            fail := (fail f)(connID \<mapsto> a + 1),
            comm := (comm f)(connID \<mapsto> a + 2),
            next_id := connID,
            queues := (queues f)(a := NewIntQueue, a + 1 := NewIntQueue, a + 2 := NewIntQueue),
            nqueues := a + 3\<rparr>))"

text \<open>
  \<open>RemoveConn\<close>: the success queue and the failure queue are disposed and deleted, each
  when it is found; the entry of the received queue is deleted, and nothing else is done
  to that queue.
\<close>

definition RemoveConn :: "ackForwarder \<Rightarrow> uintptr \<Rightarrow> ackForwarder" where
  "RemoveConn f connID =
     (let f1 = (case succ f connID of
                  Some q \<Rightarrow> f\<lparr>queues := (queues f)(q := Dispose (queues f q)),
                              succ := (succ f)(connID := None)\<rparr>
                | None \<Rightarrow> f);
          f2 = (case fail f1 connID of
                  Some q \<Rightarrow> f1\<lparr>queues := (queues f1)(q := Dispose (queues f1 q)),
                               fail := (fail f1)(connID := None)\<rparr>
                | None \<Rightarrow> f1)
      in f2\<lparr>comm := (comm f2)(connID := None)\<rparr>)"

definition RemoveAll :: "ackForwarder \<Rightarrow> ackForwarder" where
  "RemoveAll f = f\<lparr>succ := Map.empty, fail := Map.empty, comm := Map.empty\<rparr>"

definition Wait :: "ackForwarder \<Rightarrow> uintptr \<Rightarrow> bool option" where
  "Wait f connID =
     (case succ f connID of
        None \<Rightarrow> Some False
      | Some qsucc \<Rightarrow>
          (case fail f connID of
             None \<Rightarrow> Some False
           | Some qfail \<Rightarrow> WaitOne (queues f qsucc) (queues f qfail)))"

text \<open>
  The forwarders the program can build keep within their maps pointers to queues that
  were allocated, no two of them the same.
\<close>

definition fwd_ok :: "ackForwarder \<Rightarrow> bool" where
  "fwd_ok f \<longleftrightarrow>
     (\<forall>c a. succ f c = Some a \<longrightarrow> a < nqueues f) \<and>
     (\<forall>c a. fail f c = Some a \<longrightarrow> a < nqueues f) \<and>
     (\<forall>c a. comm f c = Some a \<longrightarrow> a < nqueues f) \<and>
     (\<forall>c d a. succ f c = Some a \<longrightarrow> fail f d \<noteq> Some a) \<and>
     (\<forall>c d a. succ f c = Some a \<longrightarrow> comm f d \<noteq> Some a) \<and>
     (\<forall>c d a. fail f c = Some a \<longrightarrow> comm f d \<noteq> Some a) \<and>
     (\<forall>c d a. succ f c = Some a \<longrightarrow> succ f d = Some a \<longrightarrow> c = d) \<and>
     (\<forall>c d a. fail f c = Some a \<longrightarrow> fail f d = Some a \<longrightarrow> c = d) \<and>
     (\<forall>c d a. comm f c = Some a \<longrightarrow> comm f d = Some a \<longrightarrow> c = d)"

subsection \<open>The raw messages and their queue\<close>

text \<open>
  \<open>model.RawTcpMessage\<close> as \<open>relp.go\<close> fills and reads it. The declaration of the type
  is not among the sources; the fields are those the handler assigns.
\<close>

record RawTcpMessage =
  Size :: nat
  Txnr :: int
  Client :: string
  LocalPort :: int
  UnixSocketPath :: string
  ConfID :: string
  DontParseSD :: bool
  Encoding :: string
  Format :: string
  ConnID :: uintptr
  Message :: string

text \<open>
  Modelled from the spec: the ring \<open>tcp.Ring\<close> (package utils/queue/tcp) is not among the
  sources. The specification gives it as a bounded queue: \<open>Put\<close> blocks when the ring is
  full and returns an error when it is disposed; \<open>Get\<close> blocks when it is empty and
  returns an error when it is disposed and empty; \<open>Dispose\<close> makes every later \<open>Put\<close>
  fail. A call that stays blocked is the value \<open>Blocked\<close>.
\<close>

datatype 'a blocking = Blocked | Returns 'a

record 'a Ring =
  ring_items :: "'a list"
  ring_disposed :: bool
  ring_capacity :: nat

definition NewRing :: "nat \<Rightarrow> 'a Ring" where
  "NewRing n = \<lparr>ring_items = [], ring_disposed = False, ring_capacity = n\<rparr>"

definition RingPut :: "'a Ring \<Rightarrow> 'a \<Rightarrow> ('a Ring \<times> queue_error option) blocking" where
  "RingPut r x =
     (if ring_disposed r then Returns (r, Some ErrQDisposed)
      else if ring_capacity r \<le> length (ring_items r) then Blocked
      else Returns (r\<lparr>ring_items := ring_items r @ [x]\<rparr>, None))"

definition RingGet :: "'a Ring \<Rightarrow> ('a Ring \<times> (queue_error + 'a)) blocking" where
  "RingGet r =
     (case ring_items r of
        x # xs \<Rightarrow> Returns (r\<lparr>ring_items := xs\<rparr>, Inr x)
      | [] \<Rightarrow> (if ring_disposed r then Returns (r, Inl ErrQDisposed) else Blocked))"

definition RingDispose :: "'a Ring \<Rightarrow> 'a Ring" where
  "RingDispose r = r\<lparr>ring_disposed := True\<rparr>"

subsection \<open>The state of the service\<close>

text \<open>
  \<open>RelpServerStatus\<close>, in the order of the constants of the source.
\<close>

datatype RelpServerStatus = Stopped | Started | FinalStopped | Waiting

text \<open>
  The channel \<open>StatusChan\<close> is made by \<open>make(chan RelpServerStatus, 10)\<close>: a buffer of
  ten values. Its state is the values that were sent and not yet received, oldest first,
  and the number of times it was closed. A send on a closed channel and the close of a
  closed channel panic in Go; a send on a channel whose buffer is full waits until a
  value is received.
\<close>

record chan =
  chan_buf :: "RelpServerStatus list"
  chan_closes :: nat

datatype go_panic = SendOnClosedChannel | CloseOfClosedChannel | IndexOutOfRange
  | SliceBoundsOutOfRange | NilPointer

definition new_chan :: chan where
  "new_chan = \<lparr>chan_buf = [], chan_closes = 0\<rparr>"

definition chan_send :: "chan \<Rightarrow> RelpServerStatus \<Rightarrow> (go_panic + chan) blocking" where
  "chan_send ch v =
     (if 0 < chan_closes ch then Returns (Inl SendOnClosedChannel)
      else if 10 \<le> length (chan_buf ch) then Blocked
      else Returns (Inr (ch\<lparr>chan_buf := chan_buf ch @ [v]\<rparr>)))"

definition chan_close :: "chan \<Rightarrow> go_panic + chan" where
  "chan_close ch =
     (if 0 < chan_closes ch then Inl CloseOfClosedChannel
      else Inr (ch\<lparr>chan_closes := Suc (chan_closes ch)\<rparr>))"

text \<open>
  A receive takes the oldest value of the buffer. On an empty buffer the receiver waits
  (or gets the zero value at once when the channel is closed): the channel stays as it
  is.
\<close>

definition chan_recv :: "chan \<Rightarrow> chan" where
  "chan_recv ch = ch\<lparr>chan_buf := tl (chan_buf ch)\<rparr>"

text \<open>
  The places where a call that holds the status lock can wait: in \<open>doStop\<close> at
  \<open>s.parsewg.Wait()\<close> and at \<open>s.wg.Wait()\<close> (with the arguments \<open>final\<close> and \<open>wait\<close> of
  the call), and at a send on the status channel (with the value to send).
\<close>

datatype stop_point = AtParseWait bool bool | AtWgWait bool bool | AtSend RelpServerStatus

datatype write_result = WriteOK | WriteTimeout | WriteEOF | WriteError

text \<open>
  The state that the functions of \<open>relp.go\<close> read and write: the fields of
  \<open>RelpServiceImpl\<close> (\<open>status\<close>, \<open>StatusChan\<close>, \<open>rawMessagesQueue\<close>, \<open>forwarder\<close>, and of
  the embedded services \<open>Pool\<close> and \<open>QueueSize\<close>), the number of bound listeners, the
  counters of the two wait groups (\<open>parsers\<close> for \<open>parsewg\<close>, which counts the parser
  goroutines, and \<open>wg\<close>, which counts the goroutines of the connections), the status
  lock (\<open>locked\<close> is where the call that holds the lock is waiting, and \<open>None\<close> when no
  call holds it), the counters of the package, and the one connection under study:
  \<open>wire\<close> holds what was written to it, one entry for each write that succeeded, and
  \<open>faults\<close> the results of the coming writes (a write succeeds when the list is empty).
\<close>

record sys =
  status :: RelpServerStatus
  StatusChan :: chan
  rawMessagesQueue :: "RawTcpMessage Ring option"
  forwarder :: ackForwarder
  Pool :: "RawTcpMessage list"
  QueueSize :: nat
  parsers :: nat
  wg :: nat
  locked :: "stop_point option"
  listeners :: nat
  relpAnswersCounter :: "string \<times> string \<Rightarrow> nat"
  relpProtocolErrorsCounter :: "string \<Rightarrow> nat"
  IncomingMsgsCounter :: "string \<times> string \<times> string \<times> string \<Rightarrow> nat"
  ParsingErrorCounter :: "string \<times> string \<times> string \<Rightarrow> nat"
  wire :: "string list"
  faults :: "write_result list"

text \<open>
  \<open>NewRelpServiceImpl\<close>: status \<open>Stopped\<close>, a new forwarder, a new channel. The queue
  is nil until \<open>Start\<close>. The counters start at zero, the lock is free and the connection
  has nothing written; the queue size is set by \<open>SetConf\<close>, here an argument.
\<close>

definition NewRelpServiceImpl :: "nat \<Rightarrow> write_result list \<Rightarrow> sys" where
  "NewRelpServiceImpl qsize fs =
     \<lparr>status = Stopped, StatusChan = new_chan, rawMessagesQueue = None,
      forwarder = newAckForwarder, Pool = [], QueueSize = qsize, parsers = 0, wg = 0,
      locked = None, listeners = 0,
      relpAnswersCounter = (\<lambda>l. 0), relpProtocolErrorsCounter = (\<lambda>l. 0),
      IncomingMsgsCounter = (\<lambda>l. 0), ParsingErrorCounter = (\<lambda>l. 0),
      wire = [], faults = fs\<rparr>"

subsection \<open>The supervisor: Start, Stop, FinalStop, StopAndWait, EndWait\<close>

datatype start_error = ServerDefinitelyStopped | ServerNotStopped

text \<open>
  The functions below are the bodies of the exported methods between \<open>LockStatus\<close> and
  \<open>UnlockStatus\<close>. The result is a panic or the state reached. When the call has to wait,
  the state reached is the one in which it waits, holding the lock: \<open>locked\<close> tells where,
  and \<open>resume\<close> below takes the call further when what it waits for has come. When the
  call returns, \<open>locked\<close> is \<open>None\<close>.

  \<open>finish_send\<close> is the end of every path that sends: \<open>s.StatusChan <- v\<close>, then
  \<open>close(s.StatusChan)\<close> where the source has it, which is after each of the two sends
  of \<open>FinalStopped\<close> and nowhere else, then the return.
\<close>

definition finish_send :: "RelpServerStatus \<Rightarrow> sys \<Rightarrow> go_panic + sys" where
  "finish_send v s =
     (case chan_send (StatusChan s) v of
        Blocked \<Rightarrow> Inr (s\<lparr>locked := Some (AtSend v)\<rparr>)
      | Returns (Inl p) \<Rightarrow> Inl p
      | Returns (Inr ch) \<Rightarrow>
          if v = FinalStopped then
            (case chan_close ch of
               Inl p \<Rightarrow> Inl p
             | Inr ch' \<Rightarrow> Inr (s\<lparr>StatusChan := ch', locked := None\<rparr>))
          else Inr (s\<lparr>StatusChan := ch, locked := None\<rparr>))"

text \<open>
  \<open>Start\<close>. The listeners come from the binder: \<open>n\<close> is the number of them that
  \<open>initTCPListeners\<close> returned, and \<open>cpus\<close> is \<open>runtime.NumCPU()\<close>, the number of parser
  goroutines started, each after \<open>s.parsewg.Add(1)\<close>. The error is the one returned.
\<close>

definition Start_body :: "nat \<Rightarrow> nat \<Rightarrow> sys \<Rightarrow> go_panic + (start_error option \<times> sys)" where
  "Start_body n cpus s =
     (if status s = FinalStopped then Inr (Some ServerDefinitelyStopped, s)
      else if status s \<noteq> Stopped \<and> status s \<noteq> Waiting then Inr (Some ServerNotStopped, s)
      else if n = 0 then Inr (None, s\<lparr>listeners := 0\<rparr>)
      else
        map_sum id (Pair None)
          (finish_send Started
             (s\<lparr>listeners := n,
                rawMessagesQueue := Some (NewRing (QueueSize s)),
                parsers := parsers s + cpus,
                status := Started\<rparr>)))"

text \<open>
  \<open>doStop\<close>. In the state \<open>Started\<close> the listeners are reset and the queue is disposed
  when it is not nil; then the call waits until the counter of \<open>parsewg\<close> is zero, makes
  the forwarder forget every connection, waits until the counter of \<open>wg\<close> is zero, and
  at last sets the new status and sends it. On the two short paths the new status is
  set and sent at once. In each case the status is set before the send.
\<close>

definition after_wg :: "bool \<Rightarrow> bool \<Rightarrow> sys \<Rightarrow> go_panic + sys" where
  "after_wg final wt s =
     (if wg s \<noteq> 0 then Inr (s\<lparr>locked := Some (AtWgWait final wt)\<rparr>)
      else if final then finish_send FinalStopped (s\<lparr>status := FinalStopped\<rparr>)
      else if wt then finish_send Waiting (s\<lparr>status := Waiting\<rparr>)
      else finish_send Stopped (s\<lparr>status := Stopped\<rparr>))"

definition after_parsewg :: "bool \<Rightarrow> bool \<Rightarrow> sys \<Rightarrow> go_panic + sys" where
  "after_parsewg final wt s =
     (if parsers s \<noteq> 0 then Inr (s\<lparr>locked := Some (AtParseWait final wt)\<rparr>)
      else after_wg final wt (s\<lparr>forwarder := RemoveAll (forwarder s)\<rparr>))"

definition doStop :: "bool \<Rightarrow> bool \<Rightarrow> sys \<Rightarrow> go_panic + sys" where
  "doStop final wt s =
     (if final \<and> (status s = Waiting \<or> status s = Stopped \<or> status s = FinalStopped) then
        (if status s \<noteq> FinalStopped
         then finish_send FinalStopped (s\<lparr>status := FinalStopped\<rparr>)
         else Inr s)
      else if status s = Stopped \<or> status s = FinalStopped \<or> status s = Waiting then
        (if status s = Stopped \<and> wt
         then finish_send Waiting (s\<lparr>status := Waiting\<rparr>)
         else Inr s)
      else
        after_parsewg final wt
          (s\<lparr>listeners := 0,
             rawMessagesQueue := map_option RingDispose (rawMessagesQueue s)\<rparr>))"

definition EndWait_body :: "sys \<Rightarrow> go_panic + sys" where
  "EndWait_body s =
     (if status s \<noteq> Waiting then Inr s
      else finish_send Stopped (s\<lparr>status := Stopped\<rparr>))"

text \<open>
  The exported methods take the status lock first. A call that finds the lock taken
  waits for it and has done nothing yet: the state is the same, with the lock still
  taken by the other call.
\<close>

definition Start :: "nat \<Rightarrow> nat \<Rightarrow> sys \<Rightarrow> go_panic + (start_error option \<times> sys)" where
  "Start n cpus s = (if locked s \<noteq> None then Inr (None, s) else Start_body n cpus s)"

definition Stop :: "sys \<Rightarrow> go_panic + sys" where
  "Stop s = (if locked s \<noteq> None then Inr s else doStop False False s)"

definition FinalStop :: "sys \<Rightarrow> go_panic + sys" where
  "FinalStop s = (if locked s \<noteq> None then Inr s else doStop True False s)"

definition StopAndWait :: "sys \<Rightarrow> go_panic + sys" where
  "StopAndWait s = (if locked s \<noteq> None then Inr s else doStop False True s)"

definition EndWait :: "sys \<Rightarrow> go_panic + sys" where
  "EndWait s = (if locked s \<noteq> None then Inr s else EndWait_body s)"

text \<open>
  The call that holds the lock goes on from where it waits, as far as it can.
\<close>

definition resume :: "sys \<Rightarrow> go_panic + sys" where
  "resume s =
     (case locked s of
        None \<Rightarrow> Inr s
      | Some (AtSend v) \<Rightarrow> finish_send v s
      | Some (AtParseWait final wt) \<Rightarrow> after_parsewg final wt s
      | Some (AtWgWait final wt) \<Rightarrow> after_wg final wt s)"

text \<open>
  A life of the service is a list of steps: the calls of the exported methods, in the
  order in which they take the status lock, and between them what the other goroutines
  do that a waiting call can wait for: a value is received from the status channel (by
  the loop of \<open>RelpService.Start\<close>), a parser goroutine returns (\<open>parsewg.Done()\<close>), a
  goroutine of a connection starts or returns (\<open>wg.Add(1)\<close>, \<open>wg.Done()\<close>).
\<close>

datatype sup_op = OpStart nat nat | OpStop | OpFinalStop | OpStopAndWait | OpEndWait
  | OpRecv | OpParserDone | OpWgAdd | OpWgDone

fun sup_step :: "sup_op \<Rightarrow> sys \<Rightarrow> go_panic + sys" where
  "sup_step (OpStart n cpus) s = map_sum id snd (Start n cpus s)"
| "sup_step OpStop s = Stop s"
| "sup_step OpFinalStop s = FinalStop s"
| "sup_step OpStopAndWait s = StopAndWait s"
| "sup_step OpEndWait s = EndWait s"
| "sup_step OpRecv s =
     (if chan_buf (StatusChan s) = [] then Inr s
      else resume (s\<lparr>StatusChan := chan_recv (StatusChan s)\<rparr>))"
| "sup_step OpParserDone s =
     (if parsers s = 0 then Inr s else resume (s\<lparr>parsers := parsers s - 1\<rparr>))"
| "sup_step OpWgAdd s = Inr (s\<lparr>wg := wg s + 1\<rparr>)"
| "sup_step OpWgDone s =
     (if wg s = 0 then Inr s else resume (s\<lparr>wg := wg s - 1\<rparr>))"

fun sup_run :: "sup_op list \<Rightarrow> sys \<Rightarrow> go_panic + sys" where
  "sup_run [] s = Inr s"
| "sup_run (x # xs) s = (case sup_step x s of Inl p \<Rightarrow> Inl p | Inr s' \<Rightarrow> sup_run xs s')"

text \<open>
  The number of times the status channel was closed.
\<close>

definition closes :: "sys \<Rightarrow> nat" where
  "closes s = chan_closes (StatusChan s)"

subsection \<open>Functions of Go's library that the handler calls\<close>

text \<open>
  Byte slices and strings of the source are lists of characters, one character for one
  byte. \<open>sp\<close> is the separator \<open>[]byte(" ")\<close> of the package; it has a single byte, and
  \<open>SplitN\<close> below is \<open>bytes.SplitN\<close> for a separator of one byte: at most \<open>n\<close> pieces, the
  last one holding the unsplit rest.
\<close>

definition sp :: char where
  "sp = CHR '' ''"

fun SplitN :: "string \<Rightarrow> char \<Rightarrow> nat \<Rightarrow> string list" where
  "SplitN s c 0 = []"
| "SplitN s c (Suc 0) = [s]"
| "SplitN s c (Suc (Suc n)) =
     (if c \<in> set s
      then takeWhile (\<lambda>x. x \<noteq> c) s # SplitN (tl (dropWhile (\<lambda>x. x \<noteq> c) s)) c (Suc n)
      else [s])"

text \<open>
  \<open>bytes.Trim(s, cutset)\<close> removes from both ends of \<open>s\<close> the bytes that are in
  \<open>cutset\<close>. The handler's cutset is space, carriage return, line feed.
\<close>

definition Trim :: "string \<Rightarrow> string \<Rightarrow> string" where
  "Trim s cutset =
     rev (dropWhile (\<lambda>c. c \<in> set cutset) (rev (dropWhile (\<lambda>c. c \<in> set cutset) s)))"

definition blanks :: string where
  "blanks = [CHR '' '', CHR 0x0D, CHR 0x0A]"

text \<open>
  \<open>strconv.Atoi\<close> of Go's library. \<open>Atoi(s)\<close> is \<open>ParseInt(s, 10, 0)\<close> (for a string of
  fewer than 19 bytes a loop of its own computes the same value and the same kind of
  error). \<open>ParseInt\<close> takes off one sign and calls \<open>ParseUint\<close>, which reads the bytes
  from the left: a byte that is not a decimal digit ends the reading with a syntax
  error and the value 0; a digit with which the number leaves the range of 64 unsigned
  bits ends it at once with a range error and the largest value, whatever bytes follow.
  After a range error, or when the number is outside the range of the 64-bit \<open>int\<close>,
  \<open>ParseInt\<close> returns the nearest bound with a range error. The second component of
  \<open>Atoi\<close> tells whether the error is not nil. The handler ignores the error and uses the
  value.
\<close>

datatype num_error = ErrSyntax | ErrRange

definition digit_val :: "char \<Rightarrow> int option" where
  "digit_val c =
     (let n = (of_char c :: int) in if 48 \<le> n \<and> n \<le> 57 then Some (n - 48) else None)"

fun scan_uint :: "int \<Rightarrow> string \<Rightarrow> int \<times> num_error option" where
  "scan_uint n [] = (n, None)"
| "scan_uint n (c # cs) =
     (case digit_val c of
        None \<Rightarrow> (0, Some ErrSyntax)
      | Some d \<Rightarrow>
          if 1844674407370955162 \<le> n then (18446744073709551615, Some ErrRange)
          else if 18446744073709551615 < n * 10 + d then (18446744073709551615, Some ErrRange)
          else scan_uint (n * 10 + d) cs)"

definition ParseUint :: "string \<Rightarrow> int \<times> num_error option" where
  "ParseUint s = (if s = [] then (0, Some ErrSyntax) else scan_uint 0 s)"

definition ParseInt :: "string \<Rightarrow> int \<times> num_error option" where
  "ParseInt s =
     (if s = [] then (0, Some ErrSyntax)
      else
        (let neg = (hd s = CHR ''-'');
             r = (if hd s = CHR ''+'' \<or> hd s = CHR ''-'' then tl s else s);
             (un, err) = ParseUint r
         in if err = Some ErrSyntax then (0, Some ErrSyntax)
            else if \<not> neg \<and> 9223372036854775808 \<le> un
              then (9223372036854775807, Some ErrRange)
            else if neg \<and> 9223372036854775808 < un
              then (- 9223372036854775808, Some ErrRange)
            else (if neg then - un else un, None)))"

definition Atoi :: "string \<Rightarrow> int \<times> bool" where
  "Atoi s = (fst (ParseInt s), snd (ParseInt s) \<noteq> None)"

text \<open>
  The verb \<open>%d\<close> of \<open>fmt.Fprintf\<close> on an \<open>int\<close>: the decimal digits, after a minus sign
  for a negative number.
\<close>

definition digit_char :: "nat \<Rightarrow> char" where
  "digit_char d = ''0123456789'' ! d"

fun digits10 :: "nat \<Rightarrow> string" where
  "digits10 n = (if n < 10 then [digit_char n]
                 else digits10 (n div 10) @ [digit_char (n mod 10)])"

definition fmt_d :: "int \<Rightarrow> string" where
  "fmt_d i = (if i < 0 then CHR ''-'' # digits10 (nat (- i)) else digits10 (nat i))"

subsection \<open>The connection handler\<close>

text \<open>
  What \<open>HandleConnection\<close> fixes before its loop (each name of the source after
  \<open>ctx_\<close>): the connection id that \<open>AddConn\<close> returned, the labels \<open>client\<close>,
  \<open>path\<close>, \<open>localPort\<close> and \<open>localPortStr\<close> that it
  computes from the addresses of the connection (the computation is not modelled: the
  labels are given), and the fields of the configuration that it copies into a raw
  message.
\<close>

record hctx =
  ctx_connID :: uintptr
  ctx_client :: string
  ctx_path :: string
  ctx_localPort :: int
  ctx_localPortStr :: string
  conf_ConfID :: string
  conf_DontParseSD :: bool
  conf_Encoding :: string
  conf_Format :: string

text \<open>
  The variables of the loop with the state of the service.
\<close>

record hstate =
  previous :: int
  relpIsOpen :: bool
  st :: sys

text \<open>
  How a pass through the body of the loop ends: the loop goes on to the next frame
  (also by \<open>continue Loop\<close>), the function returns, the goroutine stays blocked in
  \<open>Put\<close>, or it panics.
\<close>

datatype flow = Next | Exit | Waits | Panics go_panic

text \<open>
  A write to the connection. The handler ignores the result of \<open>Fprintf\<close>.
\<close>

definition conn_write :: "string \<Rightarrow> sys \<Rightarrow> write_result \<times> sys" where
  "conn_write bs s =
     (case faults s of
        [] \<Rightarrow> (WriteOK, s\<lparr>wire := wire s @ [bs]\<rparr>)
      | r # rs \<Rightarrow> (if r = WriteOK then (WriteOK, s\<lparr>wire := wire s @ [bs], faults := rs\<rparr>)
                   else (r, s\<lparr>faults := rs\<rparr>)))"

text \<open>
  \<open>relpProtocolErrorsCounter.WithLabelValues(client).Inc()\<close>.
\<close>

definition protocol_error :: "hctx \<Rightarrow> sys \<Rightarrow> sys" where
  "protocol_error ctx s =
     s\<lparr>relpProtocolErrorsCounter :=
         (relpProtocolErrorsCounter s)(ctx_client ctx := Suc (relpProtocolErrorsCounter s (ctx_client ctx)))\<rparr>"

text \<open>
  The pool of raw messages: \<open>Get\<close> takes a message that was put back, or makes one with
  a buffer of 132000 bytes (the \<open>New\<close> of the pool that \<open>SetConf\<close> installs).
\<close>

definition new_raw :: RawTcpMessage where
  "new_raw = \<lparr>Size = 0, Txnr = 0, Client = [], LocalPort = 0, UnixSocketPath = [],
              ConfID = [], DontParseSD = False, Encoding = [], Format = [], ConnID = 0,
              Message = replicate 132000 (CHR 0x00)\<rparr>"

definition PoolGet :: "sys \<Rightarrow> RawTcpMessage \<times> sys" where
  "PoolGet s = (case Pool s of [] \<Rightarrow> (new_raw, s) | r # rs \<Rightarrow> (r, s\<lparr>Pool := rs\<rparr>))"

definition PoolPut :: "RawTcpMessage \<Rightarrow> sys \<Rightarrow> sys" where
  "PoolPut r s = s\<lparr>Pool := r # Pool s\<rparr>"

text \<open>
  The built-in \<open>copy(dst, src)\<close>: as many bytes as the shorter of the two has.
\<close>

definition copy_bytes :: "string \<Rightarrow> string \<Rightarrow> string" where
  "copy_bytes dst src = take (length dst) src @ drop (length src) dst"

text \<open>
  The replies that the handler formats.
\<close>

definition open_reply :: "int \<Rightarrow> string \<Rightarrow> string" where
  "open_reply txnr data =
     fmt_d txnr @ '' rsp '' @ fmt_d (int (length data) + 7) @ '' 200 OK'' @ [CHR 0x0A]
       @ data @ [CHR 0x0A]"

definition close_reply :: "int \<Rightarrow> string" where
  "close_reply txnr = fmt_d txnr @ '' rsp 0'' @ [CHR 0x0A] @ ''0 serverclose 0'' @ [CHR 0x0A]"

text \<open>
  The body of the loop of \<open>HandleConnection\<close> for one token of the scanner. The tokens
  come from \<open>utils.RelpSplit\<close>, which is not among the sources: a token is any string.
  The indexing of \<open>splits\<close> panics when the token has fewer than three fields, as it
  does in Go. The read deadline is not represented.
\<close>

definition handle_frame :: "hctx \<Rightarrow> hstate \<Rightarrow> string \<Rightarrow> flow \<times> hstate" where
  "handle_frame ctx h tok =
     (let splits = SplitN tok sp 4;
          txnr = fst (Atoi (splits ! 0))
      in if txnr \<le> previous h then (Exit, h\<lparr>st := protocol_error ctx (st h)\<rparr>)
         else
           (let h = h\<lparr>previous := txnr\<rparr>
            in if length splits < 3 then (Panics IndexOutOfRange, h)
               else
                 (let command = splits ! 1;
                      datalen = fst (Atoi (splits ! 2))
                  in if datalen \<noteq> 0 \<and> length splits \<noteq> 4
                     then (Exit, h\<lparr>st := protocol_error ctx (st h)\<rparr>)
                     else
                       (let data = (if datalen \<noteq> 0 then Trim (splits ! 3) blanks else [])
                        in if command = ''open'' then
                             (if relpIsOpen h then (Exit, h\<lparr>st := protocol_error ctx (st h)\<rparr>)
                              else (Next, h\<lparr>st := snd (conn_write (open_reply txnr data) (st h)),
                                            relpIsOpen := True\<rparr>))
                           else if command = ''close'' then
                             (if \<not> relpIsOpen h then (Exit, h\<lparr>st := protocol_error ctx (st h)\<rparr>)
                              else (Exit, h\<lparr>st := snd (conn_write (close_reply txnr) (st h))\<rparr>))
                           else if command = ''syslog'' then
                             (if \<not> relpIsOpen h then (Exit, h\<lparr>st := protocol_error ctx (st h)\<rparr>)
                              else
                                (let s1 = (st h)\<lparr>forwarder :=
                                            Received (forwarder (st h)) (ctx_connID ctx) txnr\<rparr>
                                 in if length data = 0 then
                                      (Next, h\<lparr>st := s1\<lparr>forwarder :=
                                                ForwardSucc (forwarder s1) (ctx_connID ctx) txnr\<rparr>\<rparr>)
                                    else
                                      (let (rawmsg, s2) = PoolGet s1;
                                           rawmsg = rawmsg\<lparr>Size := length data, Txnr := txnr,
                                                      Client := ctx_client ctx,
                                                      LocalPort := ctx_localPort ctx,
                                                      UnixSocketPath := ctx_path ctx,
                                                      ConfID := conf_ConfID ctx,
                                                      DontParseSD := conf_DontParseSD ctx,
                                                      Encoding := conf_Encoding ctx,
                                                      Format := conf_Format ctx,
                                                      ConnID := ctx_connID ctx,
                                                      Message := copy_bytes (Message rawmsg) data\<rparr>
                                       in case rawMessagesQueue s2 of
                                            None \<Rightarrow> (Panics NilPointer, h\<lparr>st := s2\<rparr>)
                                          | Some q \<Rightarrow>
                                              (case RingPut q rawmsg of
                                                 Blocked \<Rightarrow> (Waits, h\<lparr>st := s2\<rparr>)
                                               | Returns (q', Some err) \<Rightarrow>
                                                   (Exit, h\<lparr>st := s2\<lparr>rawMessagesQueue := Some q'\<rparr>\<rparr>)
                                               | Returns (q', None) \<Rightarrow>
                                                   (Next, h\<lparr>st := s2\<lparr>rawMessagesQueue := Some q',
                                                      IncomingMsgsCounter :=
                                                        (IncomingMsgsCounter s2)
                                                          ((''relp'', ctx_client ctx, ctx_localPortStr ctx, ctx_path ctx) :=
                                                             Suc (IncomingMsgsCounter s2
                                                               (''relp'', ctx_client ctx, ctx_localPortStr ctx, ctx_path ctx)))\<rparr>\<rparr>)))))
                           else (Exit, h\<lparr>st := protocol_error ctx (st h)\<rparr>)))))"

text \<open>
  The loop \<open>for scanner.Scan()\<close> over tokens that the scanner delivers. \<open>Next\<close> after
  the last token says that the loop is still running, waiting for the scanner.
\<close>

fun handle_loop :: "hctx \<Rightarrow> hstate \<Rightarrow> string list \<Rightarrow> flow \<times> hstate" where
  "handle_loop ctx h [] = (Next, h)"
| "handle_loop ctx h (tok # toks) =
     (case handle_frame ctx h tok of
        (Next, h') \<Rightarrow> handle_loop ctx h' toks
      | (fl, h') \<Rightarrow> (fl, h'))"

text \<open>
  The deferred function of \<open>HandleConnection\<close>, as far as the state goes:
  \<open>s.forwarder.RemoveConn(connID)\<close> and \<open>s.wg.Done()\<close>. It runs when the function
  returns and when it panics, not while it is blocked.
\<close>

definition handler_exit :: "hctx \<Rightarrow> sys \<Rightarrow> sys" where
  "handler_exit ctx s =
     s\<lparr>forwarder := RemoveConn (forwarder s) (ctx_connID ctx), wg := wg s - 1\<rparr>"

text \<open>
  \<open>HandleConnection\<close> before its loop: the connection is registered with the forwarder,
  whose id goes into the context, \<open>s.wg.Add(1)\<close> counts the response writer that is
  started as a goroutine of its own (modelled below), and the loop starts from
  \<open>previous = -1\<close> with the session not open. The labels of \<open>ctx\<close> are used as given.
\<close>

definition handler_start :: "hctx \<Rightarrow> sys \<Rightarrow> hctx \<times> hstate" where
  "handler_start ctx s =
     (let (cid, f) = AddConn (forwarder s)
      in (ctx\<lparr>ctx_connID := cid\<rparr>,
          \<lparr>previous = - 1, relpIsOpen = False, st = s\<lparr>forwarder := f, wg := wg s + 1\<rparr>\<rparr>))"

text \<open>
  \<open>HandleConnection\<close> on a connection that delivers the tokens \<open>toks\<close> and then ends: the
  loop runs until it is left or the scanner has no more token, and the deferred function
  runs.
\<close>

definition HandleConnection :: "hctx \<Rightarrow> string list \<Rightarrow> sys \<Rightarrow> flow \<times> sys" where
  "HandleConnection ctx toks s =
     (let (ctx', h0) = handler_start ctx s;
          (fl, h) = handle_loop ctx' h0 toks
      in if fl = Waits then (Waits, st h)
         else (if fl = Next then Exit else fl, handler_exit ctx' (st h)))"

subsection \<open>The parser worker\<close>

text \<open>
  \<open>model.FullMessage\<close> as \<open>Parse\<close> builds it, with the fields of \<open>Parsed\<close> next to the
  others. The syslog message that a parser returns is of a type \<open>'m\<close> that the service
  does not look into.
\<close>

record 'm FullMessage =
  Fields :: 'm
  Parsed_Client :: string
  Parsed_LocalPort :: int
  Parsed_UnixSocketPath :: string
  msg_Txnr :: int
  ConfId :: string
  msg_ConnID :: uintptr
  Uid :: nat

text \<open>
  The collaborators of a worker, which are not part of the service: \<open>GetParser\<close> of the
  parsers environment (\<open>None\<close> for the nil parser), where a parser takes the bytes, the
  decoder and the flag, and returns an error or a message that may be nil; and \<open>Stash\<close>
  of the reporter, which returns the fatal and the non-fatal error, each nil or not. The
  decoder that \<open>utils.SelectDecoder\<close> selects is represented by the encoding it is
  selected by.
\<close>

record 'm parser_env =
  GetParser :: "string \<Rightarrow> (string \<Rightarrow> string \<Rightarrow> bool \<Rightarrow> string + 'm option) option"
  Stash :: "'m FullMessage \<Rightarrow> string option \<times> string option"

text \<open>
  What a worker does with one raw message is a list of calls, in the order of the source:
  calls of the forwarder, of the pool, of the parsing error counter, and of the
  collaborators.
\<close>

datatype 'm effect =
    ForwardFailCall uintptr int
  | ForwardSuccCall uintptr int
  | PoolPutCall RawTcpMessage
  | ParseCall string string bool
  | ParsingErrorInc string string string
  | StashCall "'m FullMessage"
  | StopAndWaitCall

text \<open>
  How a pass through the body of the loop of \<open>Parse\<close> ends: with the next pass, with
  \<open>return\<close>, with the call of \<open>StopAndWait\<close> that a \<open>return\<close> follows, or with a panic.
\<close>

datatype pass_end = Continue | Return | StopThenReturn | Panic go_panic

text \<open>
  The body of the loop of \<open>Parse\<close> after \<open>Get\<close> has returned the raw message: the calls
  made, how the pass ends, and the next unique id of the generator. The slice
  \<open>raw.Message[:raw.Size]\<close> panics when \<open>Size\<close> is beyond the buffer.
\<close>

definition Parse_body ::
  "'m parser_env \<Rightarrow> nat \<Rightarrow> RawTcpMessage \<Rightarrow> 'm effect list \<times> pass_end \<times> nat" where
  "Parse_body e gen raw =
     (case GetParser e (Format raw) of
        None \<Rightarrow> ([ForwardFailCall (ConnID raw) (Txnr raw), PoolPutCall raw], Return, gen)
      | Some parser \<Rightarrow>
          if length (Message raw) < Size raw then ([], Panic SliceBoundsOutOfRange, gen)
          else
            (let decoder = Encoding raw;
                 input = take (Size raw) (Message raw);
                 called = ParseCall input decoder (DontParseSD raw)
             in case parser input decoder (DontParseSD raw) of
                  Inl err \<Rightarrow>
                    ([called, ForwardFailCall (ConnID raw) (Txnr raw),
                      ParsingErrorInc ''relp'' (Client raw) (Format raw), PoolPutCall raw],
                     Continue, gen)
                | Inr None \<Rightarrow>
                    ([called, ForwardSuccCall (ConnID raw) (Txnr raw), PoolPutCall raw],
                     Continue, gen)
                | Inr (Some syslogMsg) \<Rightarrow>
                    (let parsedMsg = \<lparr>Fields = syslogMsg, Parsed_Client = Client raw,
                                       Parsed_LocalPort = LocalPort raw,
                                       Parsed_UnixSocketPath = UnixSocketPath raw,
                                       msg_Txnr = Txnr raw, ConfId = ConfID raw,
                                       msg_ConnID = ConnID raw, Uid = gen\<rparr>
                     in case Stash e parsedMsg of
                          (None, None) \<Rightarrow>
                            ([called, PoolPutCall raw, StashCall parsedMsg,
                              ForwardSuccCall (msg_ConnID parsedMsg) (msg_Txnr parsedMsg)],
                             Continue, Suc gen)
                        | (Some f, nonf) \<Rightarrow>
                            ([called, PoolPutCall raw, StashCall parsedMsg,
                              ForwardFailCall (msg_ConnID parsedMsg) (msg_Txnr parsedMsg),
                              StopAndWaitCall],
                             StopThenReturn, Suc gen)
                        | (None, Some nonf) \<Rightarrow>
                            ([called, PoolPutCall raw, StashCall parsedMsg,
                              ForwardFailCall (msg_ConnID parsedMsg) (msg_Txnr parsedMsg)],
                             Continue, Suc gen))))"

text \<open>
  What a call does to the state of the service. The calls of the collaborators leave it
  as it is. The call of \<open>StopAndWait\<close> is made by \<open>Parse_step\<close> below, where it is known
  whether it returns.
\<close>

fun apply_effect :: "'m effect \<Rightarrow> sys \<Rightarrow> sys" where
  "apply_effect (ForwardFailCall c t) s = s\<lparr>forwarder := ForwardFail (forwarder s) c t\<rparr>"
| "apply_effect (ForwardSuccCall c t) s = s\<lparr>forwarder := ForwardSucc (forwarder s) c t\<rparr>"
| "apply_effect (PoolPutCall r) s = PoolPut r s"
| "apply_effect (ParsingErrorInc a b c) s =
     s\<lparr>ParsingErrorCounter := (ParsingErrorCounter s)((a, b, c) := Suc (ParsingErrorCounter s (a, b, c)))\<rparr>"
| "apply_effect (ParseCall i d f) s = s"
| "apply_effect (StashCall m) s = s"
| "apply_effect StopAndWaitCall s = s"

text \<open>
  One pass of the loop of \<open>Parse\<close>: \<open>Get\<close> on the queue, then the body. When the worker
  returns or panics, the deferred \<open>parsewg.Done()\<close> runs. After a fatal error of the
  stasher the worker calls \<open>StopAndWait\<close> and returns when that call returns; when the
  call waits (for the status lock, or inside \<open>doStop\<close>, where \<open>parsewg.Wait()\<close> waits for
  the parser goroutines, of which the caller is one) the worker stays blocked, its
  \<open>parsewg.Done()\<close> not run.
\<close>

definition Parse_step ::
  "'m parser_env \<Rightarrow> nat \<Rightarrow> sys \<Rightarrow> 'm effect list \<times> flow \<times> nat \<times> sys" where
  "Parse_step e gen s =
     (case rawMessagesQueue s of
        None \<Rightarrow> ([], Panics NilPointer, gen, s\<lparr>parsers := parsers s - 1\<rparr>)
      | Some q \<Rightarrow>
          (case RingGet q of
             Blocked \<Rightarrow> ([], Waits, gen, s)
           | Returns (q', Inl err) \<Rightarrow> ([], Exit, gen, s\<lparr>parsers := parsers s - 1\<rparr>)
           | Returns (q', Inr raw) \<Rightarrow>
               (let (effs, pe, gen') = Parse_body e gen raw;
                    s1 = fold apply_effect effs (s\<lparr>rawMessagesQueue := Some q'\<rparr>)
                in case pe of
                     Continue \<Rightarrow> (effs, Next, gen', s1)
                   | Return \<Rightarrow> (effs, Exit, gen', s1\<lparr>parsers := parsers s1 - 1\<rparr>)
                   | Panic p \<Rightarrow> (effs, Panics p, gen', s1\<lparr>parsers := parsers s1 - 1\<rparr>)
                   | StopThenReturn \<Rightarrow>
                       (case StopAndWait s1 of
                          Inl p \<Rightarrow> (effs, Panics p, gen', s1\<lparr>parsers := parsers s1 - 1\<rparr>)
                        | Inr s2 \<Rightarrow>
                            if locked s2 = None
                            then (effs, Exit, gen', s2\<lparr>parsers := parsers s2 - 1\<rparr>)
                            else (effs, Waits, gen', s2)))))"

text \<open>
  The verdicts among the calls of a worker, and the position of the first call that
  satisfies a predicate.
\<close>

fun verdict_of :: "'m effect \<Rightarrow> (bool \<times> uintptr \<times> int) option" where
  "verdict_of (ForwardSuccCall c t) = Some (True, c, t)"
| "verdict_of (ForwardFailCall c t) = Some (False, c, t)"
| "verdict_of x = None"

definition verdicts :: "'m effect list \<Rightarrow> (bool \<times> uintptr \<times> int) list" where
  "verdicts effs = List.map_filter verdict_of effs"




subsection \<open>The response writer\<close>

text \<open>
  The two maps of \<open>handleResponses\<close>. Reading a \<open>map[int]bool\<close> at a key that is absent
  gives false.
\<close>

record writer =
  successes :: "int \<rightharpoonup> bool"
  failures :: "int \<rightharpoonup> bool"

definition lookup :: "(int \<rightharpoonup> bool) \<Rightarrow> int \<Rightarrow> bool" where
  "lookup m k = (case m k of None \<Rightarrow> False | Some b \<Rightarrow> b)"

definition new_writer :: writer where
  "new_writer = \<lparr>successes = Map.empty, failures = Map.empty\<rparr>"

definition success_reply :: "int \<Rightarrow> string" where
  "success_reply txnr = fmt_d txnr @ '' rsp 6 200 OK'' @ [CHR 0x0A]"

definition failure_reply :: "int \<Rightarrow> string" where
  "failure_reply txnr = fmt_d txnr @ '' rsp 6 500 KO'' @ [CHR 0x0A]"

definition answers_inc :: "string \<Rightarrow> string \<Rightarrow> sys \<Rightarrow> sys" where
  "answers_inc code cl s =
     s\<lparr>relpAnswersCounter := (relpAnswersCounter s)((code, cl) := Suc (relpAnswersCounter s (code, cl)))\<rparr>"

text \<open>
  The number of items of the received queue of a connection and of writes that are due
  to fail: each pass of the loop \<open>Cooking\<close> that does not leave the loop lowers their
  sum.
\<close>

definition cooking_size :: "uintptr \<Rightarrow> sys \<Rightarrow> nat" where
  "cooking_size cid s =
     length (faults s) +
     (case comm (forwarder s) cid of
        None \<Rightarrow> 0
      | Some c \<Rightarrow> length (items (queues (forwarder s) c)))"

text \<open>
  The loop \<open>Cooking\<close>. \<open>Next\<close> is \<open>break Cooking\<close>, \<open>Exit\<close> is \<open>return\<close>. A write that
  fails writes nothing.
\<close>

function cooking :: "uintptr \<Rightarrow> string \<Rightarrow> writer \<Rightarrow> sys \<Rightarrow> flow \<times> writer \<times> sys" where
  "cooking cid cl w s =
     (let nxt = NextToCommit (forwarder s) cid
      in if nxt = - 1 then (Next, w, s)
         else if lookup (successes w) nxt then
           (case conn_write (success_reply nxt) s of
              (WriteOK, s1) \<Rightarrow>
                cooking cid cl (w\<lparr>successes := (successes w)(nxt := None)\<rparr>)
                  ((answers_inc ''200'' cl s1)\<lparr>forwarder := Commit (forwarder s1) cid\<rparr>)
            | (WriteEOF, s1) \<Rightarrow> (Exit, w, s1)
            | (WriteTimeout, s1) \<Rightarrow> cooking cid cl w s1
            | (WriteError, s1) \<Rightarrow> (Exit, w, s1))
         else if lookup (failures w) nxt then
           (case conn_write (failure_reply nxt) s of
              (WriteOK, s1) \<Rightarrow>
                cooking cid cl (w\<lparr>failures := (failures w)(nxt := None)\<rparr>)
                  ((answers_inc ''500'' cl s1)\<lparr>forwarder := Commit (forwarder s1) cid\<rparr>)
            | (WriteEOF, s1) \<Rightarrow> (Exit, w, s1)
            | (WriteTimeout, s1) \<Rightarrow> cooking cid cl w s1
            | (WriteError, s1) \<Rightarrow> (Exit, w, s1))
         else (Next, w, s))"
  by pat_completeness auto
termination
proof (relation "measure (\<lambda>(cid, cl, w, s). cooking_size cid s)")
  show "wf (measure (\<lambda>(cid, cl, w, s). cooking_size cid s))" by simp
next
  fix cid :: uintptr and cl :: string and w :: writer and s :: sys and nxt r s1
  assume n: "nxt = NextToCommit (forwarder s) cid" "nxt \<noteq> - 1"
    and c: "(r, s1) = conn_write (success_reply nxt) s" "r = WriteOK"
  from n obtain a x xs where a: "comm (forwarder s) cid = Some a"
    "items (queues (forwarder s) a) = x # xs"
    by (auto simp: NextToCommit_def Peek_def split: option.splits list.splits)
  from c have "forwarder s1 = forwarder s" "length (faults s1) \<le> length (faults s)"
    by (auto simp: conn_write_def split: list.splits if_splits)
  then show "((cid, cl, w\<lparr>successes := (successes w)(nxt := None)\<rparr>,
               (answers_inc ''200'' cl s1)\<lparr>forwarder := Commit (forwarder s1) cid\<rparr>),
              (cid, cl, w, s)) \<in> measure (\<lambda>(cid, cl, w, s). cooking_size cid s)"
    using a by (simp add: cooking_size_def answers_inc_def Commit_def Get_def)
next
  fix cid :: uintptr and cl :: string and w :: writer and s :: sys and nxt r s1
  assume c: "(r, s1) = conn_write (success_reply nxt) s" "r = WriteTimeout"
  then have "forwarder s1 = forwarder s" "length (faults s1) < length (faults s)"
    by (auto simp: conn_write_def split: list.splits if_splits)
  then show "((cid, cl, w, s1), (cid, cl, w, s)) \<in> measure (\<lambda>(cid, cl, w, s). cooking_size cid s)"
    by (simp add: cooking_size_def split: option.splits)
next
  fix cid :: uintptr and cl :: string and w :: writer and s :: sys and nxt r s1
  assume n: "nxt = NextToCommit (forwarder s) cid" "nxt \<noteq> - 1"
    and c: "(r, s1) = conn_write (failure_reply nxt) s" "r = WriteOK"
  from n obtain a x xs where a: "comm (forwarder s) cid = Some a"
    "items (queues (forwarder s) a) = x # xs"
    by (auto simp: NextToCommit_def Peek_def split: option.splits list.splits)
  from c have "forwarder s1 = forwarder s" "length (faults s1) \<le> length (faults s)"
    by (auto simp: conn_write_def split: list.splits if_splits)
  then show "((cid, cl, w\<lparr>failures := (failures w)(nxt := None)\<rparr>,
               (answers_inc ''500'' cl s1)\<lparr>forwarder := Commit (forwarder s1) cid\<rparr>),
              (cid, cl, w, s)) \<in> measure (\<lambda>(cid, cl, w, s). cooking_size cid s)"
    using a by (simp add: cooking_size_def answers_inc_def Commit_def Get_def)
next
  fix cid :: uintptr and cl :: string and w :: writer and s :: sys and nxt r s1
  assume c: "(r, s1) = conn_write (failure_reply nxt) s" "r = WriteTimeout"
  then have "forwarder s1 = forwarder s" "length (faults s1) < length (faults s)"
    by (auto simp: conn_write_def split: list.splits if_splits)
  then show "((cid, cl, w, s1), (cid, cl, w, s)) \<in> measure (\<lambda>(cid, cl, w, s). cooking_size cid s)"
    by (simp add: cooking_size_def split: option.splits)
qed

text \<open>
  One pass of the loop \<open>for s.forwarder.Wait(connID)\<close>: the writer stays blocked
  (\<open>Waits\<close>), leaves the loop because \<open>Wait\<close> is false (\<open>Exit\<close>), or takes at most one
  success and one failure from the queues and cooks.
\<close>

definition writer_pass :: "uintptr \<Rightarrow> string \<Rightarrow> writer \<Rightarrow> sys \<Rightarrow> flow \<times> writer \<times> sys" where
  "writer_pass cid cl w s =
     (case Wait (forwarder s) cid of
        None \<Rightarrow> (Waits, w, s)
      | Some False \<Rightarrow> (Exit, w, s)
      | Some True \<Rightarrow>
          (let (t1, f1) = GetSucc (forwarder s) cid;
               w1 = (if t1 \<noteq> - 1 then w\<lparr>successes := (successes w)(t1 \<mapsto> True)\<rparr> else w);
               (t2, f2) = GetFail f1 cid;
               w2 = (if t2 \<noteq> - 1 then w1\<lparr>failures := (failures w1)(t2 \<mapsto> True)\<rparr> else w1)
           in cooking cid cl w2 (s\<lparr>forwarder := f2\<rparr>)))"

subsection \<open>A connection to run the functions on\<close>

text \<open>
  A client at 10.0.0.7 on port 514, a service that was started with a queue of eight
  raw messages, and the handler of the first connection before its first frame.
\<close>

definition ex_ctx :: hctx where
  "ex_ctx = \<lparr>ctx_connID = 1, ctx_client = ''10.0.0.7'', ctx_path = [], ctx_localPort = 514,
             ctx_localPortStr = ''514'', conf_ConfID = ''01C0'', conf_DontParseSD = False,
             conf_Encoding = ''utf8'', conf_Format = ''rfc5424''\<rparr>"

definition ex_sys :: sys where
  "ex_sys = (NewRelpServiceImpl 8 [])\<lparr>status := Started, StatusChan := new_chan\<lparr>chan_buf := [Started]\<rparr>,
               rawMessagesQueue := Some (NewRing 8), parsers := 4, wg := 1,
               listeners := 1\<rparr>"

definition ex_h :: hstate where
  "ex_h = snd (handler_start ex_ctx ex_sys)"

text \<open>
  Collaborators for a worker: one parser, for the format of the connection above, which
  returns no message for an empty input and the input itself otherwise, and a stasher
  that accepts every message.
\<close>

definition ex_env :: "string parser_env" where
  "ex_env = \<lparr>GetParser = (\<lambda>f. if f = ''rfc5424''
                                then Some (\<lambda>b d sd. if b = [] then Inr None else Inr (Some b))
                                else None),
             Stash = (\<lambda>m. (None, None))\<rparr>"



subsection \<open>The supervisor: what holds in every state\<close>

text \<open>
  What holds of the status, the lock and the status channel in every state that the
  service reaches: the channel has been closed once when the status is \<open>FinalStopped\<close>
  and no call holds the lock, and never otherwise; a call that waits at a send has set
  the status to the value it sends and finds the buffer full; a call that waits in
  \<open>doStop\<close> for a wait group has left the status \<open>Started\<close>.
\<close>

definition sup_inv :: "sys \<Rightarrow> bool" where
  "sup_inv s \<longleftrightarrow>
     closes s = (if status s = FinalStopped \<and> locked s = None then 1 else 0) \<and>
     (\<forall>v. locked s = Some (AtSend v) \<longrightarrow>
          status s = v \<and> 10 \<le> length (chan_buf (StatusChan s))) \<and>
     (\<forall>f w. locked s = Some (AtParseWait f w) \<or> locked s = Some (AtWgWait f w) \<longrightarrow>
            status s = Started)"

text \<open>
  Ten calls that never wait and fill the buffer of the status channel when nothing is
  received: five times \<open>StopAndWait\<close> on a stopped service, which sends \<open>Waiting\<close>, and
  \<open>EndWait\<close>, which sends \<open>Stopped\<close>.
\<close>

definition fill_ops :: "sup_op list" where
  "fill_ops = [OpStopAndWait, OpEndWait, OpStopAndWait, OpEndWait, OpStopAndWait, OpEndWait,
               OpStopAndWait, OpEndWait, OpStopAndWait, OpEndWait]"

subsection \<open>The fields of a token\<close>

text \<open>
  The TXNR of a token as the handler reads it, \<open>strconv.Atoi(string(splits[0]))\<close> with
  the error ignored, and the value of the variable \<open>previous\<close> after the tokens \<open>toks\<close>
  were taken one after the other: the TXNR of the last of them, and -1 before the first.
\<close>

definition frame_txnr :: "string \<Rightarrow> int" where
  "frame_txnr tok = fst (Atoi (SplitN tok sp 4 ! 0))"


text \<open>
  The data of a token as the handler takes it (its variable \<open>data\<close>): nothing when the
  declared length reads as zero, the fourth field trimmed otherwise.
\<close>

definition frame_data :: "string \<Rightarrow> string" where
  "frame_data tok =
     (if fst (Atoi (SplitN tok sp 4 ! 2)) \<noteq> 0 then Trim (SplitN tok sp 4 ! 3) blanks else [])"


subsection \<open>A connection: its handler, the verdicts and its response writer\<close>

text \<open>
  The queues of a connection as the forwarder finds them, through its maps: what is
  waiting in the received queue, in the success queue and in the failure queue; nothing
  when the connection is not in the map.
\<close>

definition received_q :: "ackForwarder \<Rightarrow> uintptr \<Rightarrow> int list" where
  "received_q f cid = (case comm f cid of None \<Rightarrow> [] | Some a \<Rightarrow> items (queues f a))"

definition success_q :: "ackForwarder \<Rightarrow> uintptr \<Rightarrow> int list" where
  "success_q f cid = (case succ f cid of None \<Rightarrow> [] | Some a \<Rightarrow> items (queues f a))"

definition failure_q :: "ackForwarder \<Rightarrow> uintptr \<Rightarrow> int list" where
  "failure_q f cid = (case fail f cid of None \<Rightarrow> [] | Some a \<Rightarrow> items (queues f a))"

text \<open>
  The raw message that the handler fills for a \<open>syslog\<close> frame with data, from the
  message that the pool gives, and the end of that branch of the loop from the call of
  \<open>Put\<close> on, which is where the handler goes on when \<open>Put\<close> has waited for room in the
  queue.
\<close>

definition build_raw :: "hctx \<Rightarrow> sys \<Rightarrow> string \<Rightarrow> RawTcpMessage" where
  "build_raw ctx s tok =
     (fst (PoolGet s))\<lparr>Size := length (frame_data tok), Txnr := frame_txnr tok,
        Client := ctx_client ctx, LocalPort := ctx_localPort ctx,
        UnixSocketPath := ctx_path ctx, ConfID := conf_ConfID ctx,
        DontParseSD := conf_DontParseSD ctx, Encoding := conf_Encoding ctx,
        Format := conf_Format ctx, ConnID := ctx_connID ctx,
        Message := copy_bytes (Message (fst (PoolGet s))) (frame_data tok)\<rparr>"

definition retry_put :: "hctx \<Rightarrow> RawTcpMessage \<Rightarrow> sys \<Rightarrow> flow \<times> sys" where
  "retry_put ctx rawmsg s =
     (case rawMessagesQueue s of
        None \<Rightarrow> (Panics NilPointer, s)
      | Some q \<Rightarrow>
          (case RingPut q rawmsg of
             Blocked \<Rightarrow> (Waits, s)
           | Returns (q', Some err) \<Rightarrow> (Exit, s\<lparr>rawMessagesQueue := Some q'\<rparr>)
           | Returns (q', None) \<Rightarrow>
               (Next, s\<lparr>rawMessagesQueue := Some q',
                  IncomingMsgsCounter :=
                    (IncomingMsgsCounter s)
                      ((''relp'', ctx_client ctx, ctx_localPortStr ctx, ctx_path ctx) :=
                         Suc (IncomingMsgsCounter s
                           (''relp'', ctx_client ctx, ctx_localPortStr ctx, ctx_path ctx)))\<rparr>)))"

text \<open>
  What happens on one connection after \<open>HandleConnection\<close> has registered it and started
  its response writer, as a list of events in the order in which they take place:
  the handler takes the next token of the scanner through the body of its loop
  (\<open>EvFrame\<close>), goes on after a \<open>Put\<close> that waited (\<open>EvUnblock\<close>), or runs its deferred
  function, after the loop was left or the scanner ended (\<open>EvReturn\<close>); a parser worker
  takes a raw message from the queue (\<open>EvGet\<close>) or sends a verdict for the connection
  (\<open>EvSucc\<close>, \<open>EvFail\<close>: any TXNR, at any time); the response writer makes one pass of
  its loop (\<open>EvWriter\<close>); \<open>doStop\<close> makes the forwarder forget the connections
  (\<open>EvRemoveAll\<close>). One pass of the body of the handler's loop and one pass of the
  writer's loop are each taken as one step.

  The state is the one of the handler (with the state of the service in it), how its
  loop stands, the raw message of a \<open>Put\<close> that waits, whether the deferred function has
  run, the two maps of the writer and how its loop stands. Three more lists keep what
  was done, for the statements below: the TXNRs that \<open>Received\<close> has put into the
  received queue, the TXNRs that \<open>ForwardSucc\<close> and \<open>ForwardFail\<close> have put into the
  success and the failure queue, and the frames that the writer has written; each is
  read off the queues and the connection at the step where it is done.
\<close>

datatype conn_event = EvFrame string | EvUnblock | EvReturn | EvGet | EvSucc int | EvFail int
  | EvWriter | EvRemoveAll

record cstate =
  c_h :: hstate
  c_hflow :: flow
  c_pending :: "RawTcpMessage option"
  c_returned :: bool
  c_writer :: writer
  c_flow :: flow
  c_reg :: "int list"
  c_verd :: "int list"
  c_acked :: "string list"

definition c_sys :: "cstate \<Rightarrow> sys" where
  "c_sys c = st (c_h c)"

definition set_sys :: "sys \<Rightarrow> cstate \<Rightarrow> cstate" where
  "set_sys s c = c\<lparr>c_h := (c_h c)\<lparr>st := s\<rparr>\<rparr>"

text \<open>
  \<open>observe cid f c\<close> adds to the lists what a step has put at the end of the queues of
  the connection, \<open>f\<close> being the forwarder before the step.
\<close>

definition observe :: "uintptr \<Rightarrow> ackForwarder \<Rightarrow> cstate \<Rightarrow> cstate" where
  "observe cid f c =
     c\<lparr>c_reg := c_reg c @ drop (length (received_q f cid)) (received_q (forwarder (c_sys c)) cid),
       c_verd := c_verd c @
          drop (length (success_q f cid)) (success_q (forwarder (c_sys c)) cid) @
          drop (length (failure_q f cid)) (failure_q (forwarder (c_sys c)) cid)\<rparr>"

fun conn_step :: "hctx \<Rightarrow> conn_event \<Rightarrow> cstate \<Rightarrow> cstate" where
  "conn_step ctx (EvFrame tok) c =
     (if c_hflow c \<noteq> Next \<or> c_returned c then c
      else (case handle_frame ctx (c_h c) tok of
              (fl, h') \<Rightarrow>
                observe (ctx_connID ctx) (forwarder (c_sys c))
                  (c\<lparr>c_h := h', c_hflow := fl,
                     c_pending := (if fl = Waits then Some (build_raw ctx (c_sys c) tok)
                                   else None)\<rparr>)))"
| "conn_step ctx EvUnblock c =
     (case c_pending c of
        None \<Rightarrow> c
      | Some rawmsg \<Rightarrow>
          if c_hflow c \<noteq> Waits then c
          else (case retry_put ctx rawmsg (c_sys c) of
                  (fl, s') \<Rightarrow>
                    (set_sys s' c)\<lparr>c_hflow := fl,
                       c_pending := (if fl = Waits then Some rawmsg else None)\<rparr>))"
| "conn_step ctx EvReturn c =
     (if c_hflow c = Waits \<or> c_returned c then c
      else (set_sys (handler_exit ctx (c_sys c)) c)
             \<lparr>c_hflow := (if c_hflow c = Next then Exit else c_hflow c), c_returned := True\<rparr>)"
| "conn_step ctx EvGet c =
     (case rawMessagesQueue (c_sys c) of
        None \<Rightarrow> c
      | Some q \<Rightarrow>
          (case RingGet q of
             Blocked \<Rightarrow> c
           | Returns (q', r) \<Rightarrow> set_sys ((c_sys c)\<lparr>rawMessagesQueue := Some q'\<rparr>) c))"
| "conn_step ctx (EvSucc t) c =
     observe (ctx_connID ctx) (forwarder (c_sys c))
       (set_sys ((c_sys c)\<lparr>forwarder := ForwardSucc (forwarder (c_sys c)) (ctx_connID ctx) t\<rparr>) c)"
| "conn_step ctx (EvFail t) c =
     observe (ctx_connID ctx) (forwarder (c_sys c))
       (set_sys ((c_sys c)\<lparr>forwarder := ForwardFail (forwarder (c_sys c)) (ctx_connID ctx) t\<rparr>) c)"
| "conn_step ctx EvWriter c =
     (if c_flow c = Exit then c
      else (case writer_pass (ctx_connID ctx) (ctx_client ctx) (c_writer c) (c_sys c) of
              (fl, w, s) \<Rightarrow>
                (set_sys (if fl = Exit then s\<lparr>wg := wg s - 1\<rparr> else s) c)
                  \<lparr>c_writer := w, c_flow := fl,
                   c_acked := c_acked c @ drop (length (wire (c_sys c))) (wire s)\<rparr>))"
| "conn_step ctx EvRemoveAll c =
     set_sys ((c_sys c)\<lparr>forwarder := RemoveAll (forwarder (c_sys c))\<rparr>) c"

definition conn_run :: "hctx \<Rightarrow> conn_event list \<Rightarrow> cstate \<Rightarrow> cstate" where
  "conn_run ctx evs c = fold (conn_step ctx) evs c"

text \<open>
  The start of a connection: what \<open>HandleConnection\<close> does before its loop, and a writer
  with empty maps about to call \<open>Wait\<close>.
\<close>

definition conn_start :: "hctx \<Rightarrow> sys \<Rightarrow> hctx \<times> cstate" where
  "conn_start ctx s =
     (fst (handler_start ctx s),
      \<lparr>c_h = snd (handler_start ctx s), c_hflow = Next, c_pending = None, c_returned = False,
       c_writer = new_writer, c_flow = Next, c_reg = [], c_verd = [], c_acked = []\<rparr>)"

text \<open>
  The frame that answers a TXNR with a verdict, and the schedules in which a connection
  stays and its TXNRs get their verdicts: the connection is not removed, a verdict of a
  worker comes for a TXNR that is registered and has no verdict yet, and at the end every
  registered TXNR has its verdict.
\<close>

definition ack_frame :: "int \<times> bool \<Rightarrow> string" where
  "ack_frame a = (if snd a then success_reply (fst a) else failure_reply (fst a))"

fun ok_event :: "conn_event \<Rightarrow> cstate \<Rightarrow> bool" where
  "ok_event (EvSucc t) c = (t \<in> set (c_reg c) \<and> t \<notin> set (c_verd c))"
| "ok_event (EvFail t) c = (t \<in> set (c_reg c) \<and> t \<notin> set (c_verd c))"
| "ok_event EvReturn c = False"
| "ok_event EvRemoveAll c = False"
| "ok_event (EvFrame tok) c = True"
| "ok_event EvUnblock c = True"
| "ok_event EvGet c = True"
| "ok_event EvWriter c = True"

fun sched_ok :: "hctx \<Rightarrow> conn_event list \<Rightarrow> cstate \<Rightarrow> bool" where
  "sched_ok ctx [] c = list_all (\<lambda>t. t \<in> set (c_verd c)) (c_reg c)"
| "sched_ok ctx (ev # evs) c = (ok_event ev c \<and> sched_ok ctx evs (conn_step ctx ev c))"

text \<open>
  A connection that is registered: its three queues are three different queues, none of
  them disposed.
\<close>

definition conn_at :: "ackForwarder \<Rightarrow> uintptr \<Rightarrow> addr \<Rightarrow> addr \<Rightarrow> addr \<Rightarrow> bool" where
  "conn_at f cid qs qf qc \<longleftrightarrow>
     succ f cid = Some qs \<and> fail f cid = Some qf \<and> comm f cid = Some qc \<and>
     qs \<noteq> qf \<and> qs \<noteq> qc \<and> qf \<noteq> qc \<and>
     \<not> disposed (queues f qs) \<and> \<not> disposed (queues f qf) \<and> \<not> disposed (queues f qc)"

definition conn_gone :: "ackForwarder \<Rightarrow> uintptr \<Rightarrow> bool" where
  "conn_gone f cid \<longleftrightarrow> succ f cid = None \<and> fail f cid = None \<and> comm f cid = None"

text \<open>
  What the loop \<open>Cooking\<close> has done when it is over, between the state \<open>s\<close> with the maps
  \<open>w\<close> before and the result after: it wrote the frames of some answers \<open>acks\<close>, whose
  TXNRs it took from the head of the received queue, in the order of the queue; it
  left the other two queues as they were; and a TXNR was dropped from a map exactly when
  it was answered from that map.
\<close>

definition cooked ::
  "uintptr \<Rightarrow> addr \<Rightarrow> addr \<Rightarrow> addr \<Rightarrow> writer \<Rightarrow> sys \<Rightarrow> (int \<times> bool) list \<Rightarrow> flow \<times> writer \<times> sys \<Rightarrow> bool"
  where
  "cooked cid qs qf qc w s acks r \<longleftrightarrow>
     (case r of (fl, w', s') \<Rightarrow>
        conn_at (forwarder s') cid qs qf qc \<and>
        wire s' = wire s @ map ack_frame acks \<and>
        items (queues (forwarder s) qc) = map fst acks @ items (queues (forwarder s') qc) \<and>
        queues (forwarder s') qs = queues (forwarder s) qs \<and>
        queues (forwarder s') qf = queues (forwarder s) qf \<and>
        (\<forall>t. lookup (successes w') t \<longrightarrow> lookup (successes w) t) \<and>
        (\<forall>t. lookup (failures w') t \<longrightarrow> lookup (failures w) t) \<and>
        (\<forall>t. lookup (successes w) t \<longrightarrow> lookup (successes w') t \<or> t \<in> fst ` set acks) \<and>
        (\<forall>t. lookup (failures w) t \<longrightarrow> lookup (failures w') t \<or> t \<in> fst ` set acks) \<and>
        (\<forall>a \<in> set acks. lookup (successes w) (fst a) \<or> lookup (failures w) (fst a)))"

text \<open>
  What one pass of the writer has done when the connection is registered: as for the
  loop \<open>Cooking\<close>, after at most one TXNR was taken from the head of each of the queues
  success and failure into the map of the same name.
\<close>

definition passed ::
  "uintptr \<Rightarrow> addr \<Rightarrow> addr \<Rightarrow> addr \<Rightarrow> writer \<Rightarrow> sys \<Rightarrow> (int \<times> bool) list \<Rightarrow> flow \<times> writer \<times> sys \<Rightarrow> bool"
  where
  "passed cid qs qf qc w s acks r \<longleftrightarrow>
     (case r of (fl, w', s') \<Rightarrow>
        conn_at (forwarder s') cid qs qf qc \<and>
        wire s' = wire s @ map ack_frame acks \<and>
        items (queues (forwarder s) qc) = map fst acks @ items (queues (forwarder s') qc) \<and>
        items (queues (forwarder s') qs) = tl (items (queues (forwarder s) qs)) \<and>
        items (queues (forwarder s') qf) = tl (items (queues (forwarder s) qf)) \<and>
        (\<forall>t. lookup (successes w') t \<longrightarrow>
             lookup (successes w) t \<or> t \<in> set (take 1 (items (queues (forwarder s) qs)))) \<and>
        (\<forall>t. lookup (failures w') t \<longrightarrow>
             lookup (failures w) t \<or> t \<in> set (take 1 (items (queues (forwarder s) qf)))) \<and>
        (\<forall>t. lookup (successes w) t \<or>
              (t \<in> set (take 1 (items (queues (forwarder s) qs))) \<and> t \<noteq> - 1) \<longrightarrow>
              lookup (successes w') t \<or> t \<in> fst ` set acks) \<and>
        (\<forall>t. lookup (failures w) t \<or>
              (t \<in> set (take 1 (items (queues (forwarder s) qf))) \<and> t \<noteq> - 1) \<longrightarrow>
              lookup (failures w') t \<or> t \<in> fst ` set acks))"

text \<open>
  What holds of a connection whatever happens: the TXNRs registered increase strictly
  from above -1 and none is above the last TXNR that the handler has read; the frames
  that the writer has written answer, in their order, an initial part of the TXNRs
  registered; and as long as the connection is not removed the received queue holds the
  rest. The frames of the writer are on the connection, in their order, among what was
  written to it since the start.
\<close>

definition safe_inv :: "uintptr \<Rightarrow> cstate \<Rightarrow> bool" where
  "safe_inv cid c \<longleftrightarrow>
     sorted_wrt (<) (c_reg c) \<and> - 1 \<le> previous (c_h c) \<and>
     (\<forall>r \<in> set (c_reg c). - 1 < r \<and> r \<le> previous (c_h c)) \<and>
     (\<exists>acks. c_acked c = map ack_frame acks \<and>
        (conn_gone (forwarder (c_sys c)) cid \<and> prefix (map fst acks) (c_reg c) \<or>
         (\<exists>qs qf qc. conn_at (forwarder (c_sys c)) cid qs qf qc \<and>
            map fst acks @ items (queues (forwarder (c_sys c)) qc) = c_reg c)))"

definition wire_inv :: "string list \<Rightarrow> cstate \<Rightarrow> bool" where
  "wire_inv w0 c \<longleftrightarrow> (\<exists>w. wire (c_sys c) = w0 @ w \<and> subseq (c_acked c) w)"

text \<open>
  What holds of a connection that stays registered, with writes that succeed, when the
  TXNRs \<open>R\<close> were registered and the TXNRs \<open>V\<close> have their verdict, each once: the
  answers \<open>acks\<close> written answer an initial part of \<open>R\<close> and the received queue holds the
  rest; a TXNR with a verdict is answered, or waits in a queue or in a map of the
  writer, and nothing else is in these; and the writer has no verdict in its maps for
  the head of the received queue.
\<close>

definition linv ::
  "uintptr \<Rightarrow> ackForwarder \<Rightarrow> writer \<Rightarrow> (int \<times> bool) list \<Rightarrow> int list \<Rightarrow> int list \<Rightarrow> bool" where
  "linv cid f w acks R V \<longleftrightarrow>
     (\<exists>qs qf qc.
        conn_at f cid qs qf qc \<and>
        map fst acks @ items (queues f qc) = R \<and>
        sorted_wrt (<) R \<and> (\<forall>r \<in> set R. - 1 < r) \<and> set V \<subseteq> set R \<and> distinct V \<and>
        length (items (queues f qs)) + length (items (queues f qf)) \<le> length V \<and>
        (\<forall>t \<in> set V. t \<in> fst ` set acks \<or> t \<in> set (items (queues f qs)) \<or>
             t \<in> set (items (queues f qf)) \<or> lookup (successes w) t \<or> lookup (failures w) t) \<and>
        (\<forall>t. t \<in> set (items (queues f qs)) \<or> t \<in> set (items (queues f qf)) \<or>
             lookup (successes w) t \<or> lookup (failures w) t \<longrightarrow> t \<in> set V) \<and>
        (case items (queues f qc) of
           [] \<Rightarrow> True
         | x # xs \<Rightarrow> \<not> lookup (successes w) x \<and> \<not> lookup (failures w) x))"

definition live_inv :: "uintptr \<Rightarrow> cstate \<Rightarrow> bool" where
  "live_inv cid c \<longleftrightarrow>
     (\<exists>acks. c_acked c = map ack_frame acks \<and>
        linv cid (forwarder (c_sys c)) (c_writer c) acks (c_reg c) (c_verd c)) \<and>
     faults (c_sys c) = [] \<and> c_flow c \<noteq> Exit \<and>
     - 1 \<le> previous (c_h c) \<and> (\<forall>r \<in> set (c_reg c). r \<le> previous (c_h c))"

text \<open>
  The verdicts of a connection that wait in its queues for the writer.
\<close>

definition pending :: "uintptr \<Rightarrow> sys \<Rightarrow> nat" where
  "pending cid s = length (success_q (forwarder s) cid) + length (failure_q (forwarder s) cid)"

text \<open>
  The state of a connection that starts in the state \<open>s\<close> of the service, after the
  events \<open>evs\<close>; and whether \<open>evs\<close> is a schedule in which the connection stays and its
  TXNRs get their verdicts.
\<close>

definition conn_life :: "hctx \<Rightarrow> sys \<Rightarrow> conn_event list \<Rightarrow> cstate" where
  "conn_life ctx s evs = conn_run (fst (conn_start ctx s)) evs (snd (conn_start ctx s))"

definition conn_fair :: "hctx \<Rightarrow> sys \<Rightarrow> conn_event list \<Rightarrow> bool" where
  "conn_fair ctx s evs = sched_ok (fst (conn_start ctx s)) evs (snd (conn_start ctx s))"


section \<open>Theorems\<close>

subsection \<open>The codec\<close>

lemma sless0_bit: "(x :: 64 word) <s 0 \<longleftrightarrow> bit x 63"
  using bit_last_iff[of x] by (simp add: word_sless_alt)

lemma and1_bit0: "(w :: 64 word) AND 1 \<noteq> 0 \<longleftrightarrow> bit w 0"
  by (simp add: and_one_eq mod_2_eq_odd bit_0)

lemma bit_pb1: "bit (push_bit 1 (x :: 64 word)) n \<longleftrightarrow> 0 < n \<and> n < 64 \<and> bit x (n - 1)"
  unfolding bit_push_bit_iff by (cases n) (auto simp: possible_bit_word dest: bit_imp_le_length)

lemma bit_db1: "bit (drop_bit 1 (y :: 64 word)) n \<longleftrightarrow> bit y (Suc n)"
  unfolding bit_drop_bit_eq by simp

lemma zigzag_nonneg: "\<not> bit x 63 \<Longrightarrow> drop_bit 1 (push_bit 1 x) = (x :: 64 word)"
proof (rule bit_word_eqI)
  fix n assume h: "\<not> bit x 63" and n: "n < LENGTH(64)"
  show "bit (drop_bit 1 (push_bit 1 x)) n = bit x n"
    unfolding bit_db1 bit_pb1 using h n by (cases "n = 63") auto
qed

lemma zigzag_neg: "bit x 63 \<Longrightarrow> NOT (drop_bit 1 (NOT (push_bit 1 x))) = (x :: 64 word)"
proof (rule bit_word_eqI)
  fix n assume h: "bit x 63" and n: "n < LENGTH(64)"
  show "bit (NOT (drop_bit 1 (NOT (push_bit 1 x)))) n = bit x n"
    unfolding bit_not_iff bit_db1 bit_pb1 using h n
    by (cases "n = 63") (auto simp: possible_bit_word)
qed

lemma bit_le_byte:
  "bit (push_bit k (ucast (ucast (drop_bit k v) :: 8 word) :: 64 word)) n \<longleftrightarrow>
     k \<le> n \<and> n < k + 8 \<and> n < 64 \<and> bit (v :: 64 word) n"
  by (auto simp add: bit_simps dest: bit_imp_le_length)

lemma bit_le_byte0:
  "bit (ucast (ucast v :: 8 word) :: 64 word) n \<longleftrightarrow> n < 8 \<and> bit (v :: 64 word) n"
  by (auto simp add: bit_simps dest: bit_imp_le_length)

lemma le_bytes_roundtrip:
  "ucast (ucast v :: 8 word) OR push_bit 8 (ucast (ucast (drop_bit 8 v) :: 8 word)) OR
   push_bit 16 (ucast (ucast (drop_bit 16 v) :: 8 word)) OR
   push_bit 24 (ucast (ucast (drop_bit 24 v) :: 8 word)) OR
   push_bit 32 (ucast (ucast (drop_bit 32 v) :: 8 word)) OR
   push_bit 40 (ucast (ucast (drop_bit 40 v) :: 8 word)) OR
   push_bit 48 (ucast (ucast (drop_bit 48 v) :: 8 word)) OR
   push_bit 56 (ucast (ucast (drop_bit 56 v) :: 8 word)) = (v :: 64 word)" (is "?L = v")
proof (rule bit_word_eqI)
  fix n assume n: "n < LENGTH(64)"
  then have c: "n < 8 \<or> (8 \<le> n \<and> n < 16) \<or> (16 \<le> n \<and> n < 24) \<or> (24 \<le> n \<and> n < 32) \<or>
     (32 \<le> n \<and> n < 40) \<or> (40 \<le> n \<and> n < 48) \<or> (48 \<le> n \<and> n < 56) \<or> (56 \<le> n \<and> n < 64)"
    by (simp, linarith)
  show "bit ?L n = bit v n"
    using c n by (simp add: bit_or_iff bit_le_byte bit_le_byte0) blast
qed

lemma Uint64_PutUint64:
  "8 \<le> length b \<Longrightarrow> \<exists>bs. PutUint64 b v = Some bs \<and> Uint64 bs = Some v"
  by (simp add: PutUint64_def Uint64_def le_bytes_roundtrip)

text \<open>
  C9. The codec is a round trip: for every 64-bit integer \<open>txnr\<close>, negative or not,
  \<open>txnr2bytes\<close> returns eight bytes without a panic and \<open>bytes2txnr\<close> of them is \<open>txnr\<close>.
\<close>

theorem txnr_codec_roundtrip:
  "Option.bind (txnr2bytes txnr) bytes2txnr = Some txnr"
proof -
  define ux where "ux = (if txnr <s 0 then NOT (push_bit 1 txnr) else push_bit 1 txnr)"
  obtain bs where a: "PutUint64 (replicate 8 0) ux = Some bs"
    and b: "Uint64 bs = Some ux"
    using Uint64_PutUint64[of "replicate 8 0" ux] by auto
  have odd: "ux AND 1 \<noteq> 0 \<longleftrightarrow> bit txnr 63"
    unfolding and1_bit0 ux_def sless0_bit
    by (cases "bit txnr 63")
      (simp_all only: bit_not_iff bit_pb1 possible_bit_word if_True if_False, simp_all)
  have dec: "(if bit txnr 63 then NOT (drop_bit 1 ux) else drop_bit 1 ux) = txnr"
    unfolding ux_def sless0_bit
    by (cases "bit txnr 63")
      (simp_all only: zigzag_nonneg zigzag_neg if_True if_False not_False_eq_True)
  have "txnr2bytes txnr = Some bs"
    unfolding txnr2bytes_def Let_def ux_def[symmetric] by (rule a)
  moreover have "bytes2txnr bs = Some txnr"
    using b odd dec unfolding bytes2txnr_def Let_def by (cases "bit txnr 63") simp_all
  ultimately show ?thesis by simp
qed

subsection \<open>The acknowledgement forwarder\<close>

lemma fwd_ok_new: "fwd_ok newAckForwarder"
  by (simp add: fwd_ok_def newAckForwarder_def)

lemma fwd_ok_queues [simp]: "fwd_ok (f\<lparr>queues := h\<rparr>) = fwd_ok f"
  by (simp add: fwd_ok_def)

lemma upd_cases:
  "(m(k \<mapsto> n)) c = Some a \<Longrightarrow> (c = k \<and> a = n) \<or> (c \<noteq> k \<and> m c = Some a)"
  by (simp split: if_splits)

lemma fwd_ok_AddConn: "fwd_ok f \<Longrightarrow> fwd_ok (snd (AddConn f))"
proof -
  assume ok: "fwd_ok f"
  note u = ok[unfolded fwd_ok_def]
  have ls: "\<And>c a. succ f c = Some a \<Longrightarrow> a < nqueues f" using u by simp
  have lf: "\<And>c a. fail f c = Some a \<Longrightarrow> a < nqueues f" using u by simp
  have lc: "\<And>c a. comm f c = Some a \<Longrightarrow> a < nqueues f" using u by simp
  have sf: "\<And>c d a. succ f c = Some a \<Longrightarrow> fail f d \<noteq> Some a" using u by simp
  have sc: "\<And>c d a. succ f c = Some a \<Longrightarrow> comm f d \<noteq> Some a" using u by simp
  have fc: "\<And>c d a. fail f c = Some a \<Longrightarrow> comm f d \<noteq> Some a" using u by simp
  have ss: "\<And>c d a. succ f c = Some a \<Longrightarrow> succ f d = Some a \<Longrightarrow> c = d" using u by simp
  have ff: "\<And>c d a. fail f c = Some a \<Longrightarrow> fail f d = Some a \<Longrightarrow> c = d" using u by simp
  have cc: "\<And>c d a. comm f c = Some a \<Longrightarrow> comm f d = Some a \<Longrightarrow> c = d" using u by simp
  let ?g = "snd (AddConn f)"
  have g: "succ ?g = (succ f)(next_id f + 1 \<mapsto> nqueues f)"
    "fail ?g = (fail f)(next_id f + 1 \<mapsto> nqueues f + 1)"
    "comm ?g = (comm f)(next_id f + 1 \<mapsto> nqueues f + 2)"
    "nqueues ?g = nqueues f + 3"
    by (simp_all add: AddConn_def Let_def)
  have 1: "a < nqueues ?g" if "succ ?g c = Some a" for c a
    using upd_cases[OF that[unfolded g]] ls[of c a] by (auto simp: g)
  have 2: "a < nqueues ?g" if "fail ?g c = Some a" for c a
    using upd_cases[OF that[unfolded g]] lf[of c a] by (auto simp: g)
  have 3: "a < nqueues ?g" if "comm ?g c = Some a" for c a
    using upd_cases[OF that[unfolded g]] lc[of c a] by (auto simp: g)
  have 4: "fail ?g d \<noteq> Some a" if "succ ?g c = Some a" for c d a
  proof
    assume h: "fail ?g d = Some a"
    show False
      using upd_cases[OF that[unfolded g]] upd_cases[OF h[unfolded g]]
        ls[of c a] lf[of d a] sf[of c a d] by auto
  qed
  have 5: "comm ?g d \<noteq> Some a" if "succ ?g c = Some a" for c d a
  proof
    assume h: "comm ?g d = Some a"
    show False
      using upd_cases[OF that[unfolded g]] upd_cases[OF h[unfolded g]]
        ls[of c a] lc[of d a] sc[of c a d] by auto
  qed
  have 6: "comm ?g d \<noteq> Some a" if "fail ?g c = Some a" for c d a
  proof
    assume h: "comm ?g d = Some a"
    show False
      using upd_cases[OF that[unfolded g]] upd_cases[OF h[unfolded g]]
        lf[of c a] lc[of d a] fc[of c a d] by auto
  qed
  have 7: "c = d" if "succ ?g c = Some a" and "succ ?g d = Some a" for c d a
    using upd_cases[OF that(1)[unfolded g]] upd_cases[OF that(2)[unfolded g]]
      ls[of c a] ls[of d a] ss[of c a d] by auto
  have 8: "c = d" if "fail ?g c = Some a" and "fail ?g d = Some a" for c d a
    using upd_cases[OF that(1)[unfolded g]] upd_cases[OF that(2)[unfolded g]]
      lf[of c a] lf[of d a] ff[of c a d] by auto
  have 9: "c = d" if "comm ?g c = Some a" and "comm ?g d = Some a" for c d a
    using upd_cases[OF that(1)[unfolded g]] upd_cases[OF that(2)[unfolded g]]
      lc[of c a] lc[of d a] cc[of c a d] by auto
  show ?thesis unfolding fwd_ok_def
    apply (intro conjI allI impI)
    apply (erule 1)
    apply (erule 2)
    apply (erule 3)
    apply (erule 4)
    apply (erule 5)
    apply (erule 6)
    apply (erule (1) 7)
    apply (erule (1) 8)
    apply (erule (1) 9)
    done
qed

lemma fwd_ok_RemoveConn: "fwd_ok f \<Longrightarrow> fwd_ok (RemoveConn f c)"
  unfolding fwd_ok_def RemoveConn_def Let_def
  by (auto split: option.splits if_splits)

lemma fwd_ok_RemoveAll: "fwd_ok (RemoveAll f)"
  by (simp add: fwd_ok_def RemoveAll_def)

lemma AddConn_new:
  "AddConn newAckForwarder =
     (1, \<lparr>succ = [1 \<mapsto> 0], fail = [1 \<mapsto> 1], comm = [1 \<mapsto> 2], next_id = 1,
         queues = (\<lambda>a. NewIntQueue), nqueues = 3\<rparr>)"
  by (simp add: AddConn_def newAckForwarder_def Let_def fun_eq_iff)

text \<open>
  C10. On a connection id that is in none of the three maps (never added, or removed)
  \<open>Received\<close>, \<open>ForwardSucc\<close>, \<open>ForwardFail\<close> and \<open>Commit\<close> return the forwarder as it
  was, \<open>NextToCommit\<close>, \<open>GetSucc\<close> and \<open>GetFail\<close> return -1 and leave the forwarder as it
  was, and \<open>Wait\<close> returns false at once (it is \<open>Some False\<close>, not the blocked \<open>None\<close>).
  No operation can panic here: the model has no partial step on this path.
\<close>

theorem unknown_conn_total:
  assumes "succ f connID = None" and "fail f connID = None" and "comm f connID = None"
  shows "Received f connID txnr = f \<and> ForwardSucc f connID txnr = f \<and>
         ForwardFail f connID txnr = f \<and> Commit f connID = f \<and>
         NextToCommit f connID = - 1 \<and> GetSucc f connID = (- 1, f) \<and>
         GetFail f connID = (- 1, f) \<and> Wait f connID = Some False"
  using assms
  by (simp add: Received_def ForwardSucc_def ForwardFail_def Commit_def NextToCommit_def
      GetSucc_def GetFail_def Wait_def)

theorem unknown_conn_total_witness:
  "Received (RemoveConn (snd (AddConn newAckForwarder)) 1) 1 7 =
     RemoveConn (snd (AddConn newAckForwarder)) 1 \<and>
   Commit (RemoveConn (snd (AddConn newAckForwarder)) 1) 1 =
     RemoveConn (snd (AddConn newAckForwarder)) 1 \<and>
   NextToCommit (RemoveConn (snd (AddConn newAckForwarder)) 1) 1 = - 1 \<and>
   GetSucc (RemoveConn (snd (AddConn newAckForwarder)) 1) 1 =
     (- 1, RemoveConn (snd (AddConn newAckForwarder)) 1) \<and>
   Wait (RemoveConn (snd (AddConn newAckForwarder)) 1) 1 = Some False"
proof -
  have "succ (RemoveConn (snd (AddConn newAckForwarder)) 1) 1 = None"
    and "fail (RemoveConn (snd (AddConn newAckForwarder)) 1) 1 = None"
    and "comm (RemoveConn (snd (AddConn newAckForwarder)) 1) 1 = None"
    by (simp_all add: AddConn_new RemoveConn_def Let_def)
  from unknown_conn_total[OF this, of 7] show ?thesis by simp
qed

text \<open>
  The claim C6 as it is written fails: after \<open>AddConn\<close> on a new forwarder and
  \<open>RemoveConn\<close> of the id it returned, the received queue of that connection (the queue
  at address 2) is not disposed.
\<close>

theorem RemoveConn_received_not_disposed:
  "(case AddConn newAckForwarder of (connID, f) \<Rightarrow>
      comm f connID = Some 2 \<and> \<not> disposed (queues (RemoveConn f connID) 2))"
  by (simp add: AddConn_def newAckForwarder_def Let_def RemoveConn_def Dispose_def
      NewIntQueue_def)

text \<open>
  C6, amended. For a connection id that has its three queues, \<open>RemoveConn\<close> deletes the
  id from the three maps, disposes the success queue and the failure queue, and leaves
  the received queue as it was (not disposed by this call).
\<close>

theorem RemoveConn_effect:
  assumes "fwd_ok f" and "succ f connID = Some qs" and "fail f connID = Some qf"
    and "comm f connID = Some qc"
  shows "succ (RemoveConn f connID) connID = None \<and>
         fail (RemoveConn f connID) connID = None \<and>
         comm (RemoveConn f connID) connID = None \<and>
         queues (RemoveConn f connID) qs = Dispose (queues f qs) \<and>
         queues (RemoveConn f connID) qf = Dispose (queues f qf) \<and>
         queues (RemoveConn f connID) qc = queues f qc"
proof -
  from assms have d: "qs \<noteq> qf" "qs \<noteq> qc" "qf \<noteq> qc"
    unfolding fwd_ok_def by blast+
  show ?thesis using assms(2-4) d
    by (simp add: RemoveConn_def Let_def)
qed

theorem RemoveConn_effect_witness:
  "succ (RemoveConn (snd (AddConn newAckForwarder)) 1) 1 = None \<and>
   fail (RemoveConn (snd (AddConn newAckForwarder)) 1) 1 = None \<and>
   comm (RemoveConn (snd (AddConn newAckForwarder)) 1) 1 = None \<and>
   disposed (queues (RemoveConn (snd (AddConn newAckForwarder)) 1) 0) \<and>
   disposed (queues (RemoveConn (snd (AddConn newAckForwarder)) 1) 1)"
proof -
  have ok: "fwd_ok (snd (AddConn newAckForwarder))"
    by (rule fwd_ok_AddConn[OF fwd_ok_new])
  have "succ (snd (AddConn newAckForwarder)) 1 = Some 0"
    and "fail (snd (AddConn newAckForwarder)) 1 = Some 1"
    and "comm (snd (AddConn newAckForwarder)) 1 = Some 2"
    by (simp_all add: AddConn_new)
  from RemoveConn_effect[OF ok this] show ?thesis by (simp add: Dispose_def)
qed


subsection \<open>The supervisor\<close>

lemma finish_send_inv:
  assumes "closes s = 0" and "status s = v"
  shows "\<exists>t. finish_send v s = Inr t \<and> sup_inv t \<and> status t = v"
  using assms
  by (cases v)
    (auto simp add: finish_send_def chan_send_def chan_close_def closes_def sup_inv_def)

lemma after_wg_inv:
  assumes "closes s = 0" and "status s = Started"
  shows "\<exists>t. after_wg f w s = Inr t \<and> sup_inv t"
proof (cases "wg s = 0")
  case False
  then show ?thesis using assms by (simp add: after_wg_def sup_inv_def closes_def)
next
  case True
  have c: "\<And>v. closes (s\<lparr>status := v\<rparr>) = 0" using assms by (simp add: closes_def)
  have d: "\<And>v. status (s\<lparr>status := v\<rparr>) = v" by simp
  show ?thesis
    using True finish_send_inv[OF c d, of FinalStopped]
      finish_send_inv[OF c d, of Waiting] finish_send_inv[OF c d, of Stopped]
    by (auto simp add: after_wg_def)
qed

lemma after_parsewg_inv:
  assumes "closes s = 0" and "status s = Started"
  shows "\<exists>t. after_parsewg f w s = Inr t \<and> sup_inv t"
proof (cases "parsers s = 0")
  case False
  then show ?thesis using assms by (simp add: after_parsewg_def sup_inv_def closes_def)
next
  case True
  have c: "closes (s\<lparr>forwarder := RemoveAll (forwarder s)\<rparr>) = 0"
    and d: "status (s\<lparr>forwarder := RemoveAll (forwarder s)\<rparr>) = Started"
    using assms by (simp_all add: closes_def)
  from after_wg_inv[OF c d, of f w] show ?thesis
    using True by (simp add: after_parsewg_def)
qed

lemma resume_inv:
  assumes c: "closes s = (if status s = FinalStopped \<and> locked s = None then 1 else 0)"
    and a: "\<And>v. locked s = Some (AtSend v) \<Longrightarrow> status s = v"
    and b: "\<And>f w. locked s = Some (AtParseWait f w) \<or> locked s = Some (AtWgWait f w) \<Longrightarrow>
              status s = Started"
  shows "\<exists>t. resume s = Inr t \<and> sup_inv t \<and>
             (status s = FinalStopped \<longrightarrow> status t = FinalStopped)"
proof (cases "locked s")
  case None
  then show ?thesis using c by (simp add: resume_def sup_inv_def)
next
  case (Some p)
  then have z: "closes s = 0" using c by simp
  show ?thesis
  proof (cases p)
    case (AtSend v)
    with Some have l: "locked s = Some (AtSend v)" by simp
    from finish_send_inv[OF z a[OF l]] show ?thesis by (auto simp add: resume_def l a[OF l])
  next
    case (AtParseWait f w)
    with Some have l: "locked s = Some (AtParseWait f w)" by simp
    then have st: "status s = Started" using b by blast
    from after_parsewg_inv[OF z st, of f w] show ?thesis by (auto simp add: resume_def l st)
  next
    case (AtWgWait f w)
    with Some have l: "locked s = Some (AtWgWait f w)" by simp
    then have st: "status s = Started" using b by blast
    from after_wg_inv[OF z st, of f w] show ?thesis by (auto simp add: resume_def l st)
  qed
qed

lemma sup_inv_D:
  assumes "sup_inv s"
  shows "closes s = (if status s = FinalStopped \<and> locked s = None then 1 else 0)"
    and "\<And>v. locked s = Some (AtSend v) \<Longrightarrow> status s = v"
    and "\<And>f w. locked s = Some (AtParseWait f w) \<or> locked s = Some (AtWgWait f w) \<Longrightarrow>
              status s = Started"
  using assms unfolding sup_inv_def by blast+

lemma doStop_inv:
  assumes i: "sup_inv s" and l: "locked s = None"
  shows "\<exists>t. doStop f w s = Inr t \<and> sup_inv t \<and>
             (status s = FinalStopped \<longrightarrow> t = s)"
proof (cases "status s")
  case Started
  let ?s1 = "s\<lparr>listeners := 0, rawMessagesQueue := map_option RingDispose (rawMessagesQueue s)\<rparr>"
  have c: "closes ?s1 = 0" and d: "status ?s1 = Started"
    using sup_inv_D(1)[OF i] Started by (simp_all add: closes_def)
  from after_parsewg_inv[OF c d, of f w] show ?thesis by (simp add: doStop_def Started)
next
  case FinalStopped
  then show ?thesis using i by (simp add: doStop_def)
next
  case Stopped
  have c: "\<And>v. closes (s\<lparr>status := v\<rparr>) = 0"
    using sup_inv_D(1)[OF i] Stopped by (simp add: closes_def)
  have d: "\<And>v. status (s\<lparr>status := v\<rparr>) = v" by simp
  show ?thesis
    using finish_send_inv[OF c d, of FinalStopped] finish_send_inv[OF c d, of Waiting] i
    by (auto simp add: doStop_def Stopped)
next
  case Waiting
  have c: "\<And>v. closes (s\<lparr>status := v\<rparr>) = 0"
    using sup_inv_D(1)[OF i] Waiting by (simp add: closes_def)
  have d: "\<And>v. status (s\<lparr>status := v\<rparr>) = v" by simp
  show ?thesis
    using finish_send_inv[OF c d, of FinalStopped] i
    by (auto simp add: doStop_def Waiting)
qed

lemma Start_inv:
  assumes i: "sup_inv s"
  shows "\<exists>e t. Start n cpus s = Inr (e, t) \<and> sup_inv t \<and>
             (status s = FinalStopped \<longrightarrow> t = s)"
proof (cases "locked s \<noteq> None \<or> status s = FinalStopped \<or> status s = Started \<or> n = 0")
  case True
  then show ?thesis using i
    by (cases "status s") (auto simp add: Start_def Start_body_def sup_inv_def closes_def)
next
  case False
  let ?s1 = "s\<lparr>listeners := n, rawMessagesQueue := Some (NewRing (QueueSize s)),
                parsers := parsers s + cpus, status := Started\<rparr>"
  have c: "closes ?s1 = 0" and d: "status ?s1 = Started"
    using sup_inv_D(1)[OF i] False by (simp_all add: closes_def)
  from finish_send_inv[OF c d] show ?thesis
    using False by (cases "status s") (auto simp add: Start_def Start_body_def)
qed

lemma EndWait_inv:
  assumes i: "sup_inv s"
  shows "\<exists>t. EndWait s = Inr t \<and> sup_inv t \<and> (status s = FinalStopped \<longrightarrow> t = s)"
proof (cases "locked s = None \<and> status s = Waiting")
  case False
  then show ?thesis using i by (auto simp add: EndWait_def EndWait_body_def)
next
  case True
  have c: "closes (s\<lparr>status := Stopped\<rparr>) = 0" and d: "status (s\<lparr>status := Stopped\<rparr>) = Stopped"
    using sup_inv_D(1)[OF i] True by (simp_all add: closes_def)
  from finish_send_inv[OF c d] show ?thesis
    using True by (auto simp add: EndWait_def EndWait_body_def)
qed

lemma sup_step_inv:
  assumes i: "sup_inv s"
  shows "\<exists>t. sup_step x s = Inr t \<and> sup_inv t \<and>
             (status s = FinalStopped \<longrightarrow> status t = FinalStopped)"
proof (cases x)
  case (OpStart n cpus)
  from Start_inv[OF i, of n cpus] show ?thesis by (auto simp add: OpStart)
next
  case OpStop
  show ?thesis
  proof (cases "locked s")
    case None
    from doStop_inv[OF i None, of False False] show ?thesis by (auto simp add: OpStop Stop_def None)
  next
    case (Some p)
    then show ?thesis using i by (simp add: OpStop Stop_def)
  qed
next
  case OpFinalStop
  show ?thesis
  proof (cases "locked s")
    case None
    from doStop_inv[OF i None, of True False] show ?thesis
      by (auto simp add: OpFinalStop FinalStop_def None)
  next
    case (Some p)
    then show ?thesis using i by (simp add: OpFinalStop FinalStop_def)
  qed
next
  case OpStopAndWait
  show ?thesis
  proof (cases "locked s")
    case None
    from doStop_inv[OF i None, of False True] show ?thesis
      by (auto simp add: OpStopAndWait StopAndWait_def None)
  next
    case (Some p)
    then show ?thesis using i by (simp add: OpStopAndWait StopAndWait_def)
  qed
next
  case OpEndWait
  from EndWait_inv[OF i] show ?thesis by (auto simp add: OpEndWait)
next
  case OpRecv
  show ?thesis
  proof (cases "chan_buf (StatusChan s) = []")
    case True
    then show ?thesis using i by (simp add: OpRecv)
  next
    case False
    let ?s1 = "s\<lparr>StatusChan := chan_recv (StatusChan s)\<rparr>"
    have "\<exists>t. resume ?s1 = Inr t \<and> sup_inv t \<and>
             (status ?s1 = FinalStopped \<longrightarrow> status t = FinalStopped)"
      using sup_inv_D[OF i] by (intro resume_inv) (simp_all add: closes_def chan_recv_def)
    then show ?thesis using False by (simp add: OpRecv)
  qed
next
  case OpParserDone
  show ?thesis
  proof (cases "parsers s = 0")
    case True
    then show ?thesis using i by (simp add: OpParserDone)
  next
    case False
    let ?s1 = "s\<lparr>parsers := parsers s - 1\<rparr>"
    have "\<exists>t. resume ?s1 = Inr t \<and> sup_inv t \<and>
             (status ?s1 = FinalStopped \<longrightarrow> status t = FinalStopped)"
      using sup_inv_D[OF i] by (intro resume_inv) (simp_all add: closes_def)
    then show ?thesis using False by (simp add: OpParserDone)
  qed
next
  case OpWgAdd
  then show ?thesis using i by (simp add: sup_inv_def closes_def)
next
  case OpWgDone
  show ?thesis
  proof (cases "wg s = 0")
    case True
    then show ?thesis using i by (simp add: OpWgDone)
  next
    case False
    let ?s1 = "s\<lparr>wg := wg s - 1\<rparr>"
    have "\<exists>t. resume ?s1 = Inr t \<and> sup_inv t \<and>
             (status ?s1 = FinalStopped \<longrightarrow> status t = FinalStopped)"
      using sup_inv_D[OF i] by (intro resume_inv) (simp_all add: closes_def)
    then show ?thesis using False by (simp add: OpWgDone)
  qed
qed

lemma sup_run_inv:
  "sup_inv s \<Longrightarrow>
   \<exists>t. sup_run xs s = Inr t \<and> sup_inv t \<and> (status s = FinalStopped \<longrightarrow> status t = FinalStopped)"
proof (induction xs arbitrary: s)
  case Nil
  then show ?case by simp
next
  case (Cons x xs)
  from sup_step_inv[OF Cons.prems, of x] obtain s1 where
    1: "sup_step x s = Inr s1" and 2: "sup_inv s1"
    and 3: "status s = FinalStopped \<longrightarrow> status s1 = FinalStopped" by blast
  from Cons.IH[OF 2] 3 show ?case using 1 by auto
qed

lemma sup_inv_new: "sup_inv (NewRelpServiceImpl qsize fs)"
  by (simp add: sup_inv_def NewRelpServiceImpl_def closes_def new_chan_def)

lemma FinalStopped_calls:
  assumes "status s = FinalStopped" and "locked s = None"
  shows "Start n cpus s = Inr (Some ServerDefinitelyStopped, s) \<and> Stop s = Inr s \<and>
         FinalStop s = Inr s \<and> StopAndWait s = Inr s \<and> EndWait s = Inr s"
  using assms
  by (simp add: Start_def Start_body_def Stop_def FinalStop_def StopAndWait_def EndWait_def
      EndWait_body_def doStop_def)

text \<open>
  The claim C8 as it is written fails where it has the status channel closed once the
  status is \<open>FinalStopped\<close>: \<open>doStop\<close> sets the status, then sends it, then closes the
  channel, and the send waits when the buffer of ten values is full. Here a new service
  goes five times through \<open>StopAndWait\<close> and \<open>EndWait\<close> while nothing is received from
  the channel, and then \<open>FinalStop\<close> is called: the status is \<open>FinalStopped\<close>, the call
  waits at its send with the status lock, and the channel is not closed. Whatever
  exported method is called next waits for the lock, and the channel stays open.
\<close>

theorem FinalStop_blocked_not_closed:
  "(\<exists>s. sup_run (fill_ops @ [OpFinalStop]) (NewRelpServiceImpl 8 []) = Inr s \<and>
        status s = FinalStopped \<and> closes s = 0 \<and> locked s = Some (AtSend FinalStopped) \<and>
        length (chan_buf (StatusChan s)) = 10) \<and>
   (\<exists>s. sup_run (fill_ops @ [OpFinalStop, OpStart 1 4, OpStop, OpFinalStop, OpStopAndWait,
                             OpEndWait]) (NewRelpServiceImpl 8 []) = Inr s \<and>
        status s = FinalStopped \<and> closes s = 0)"
  by (simp add: fill_ops_def NewRelpServiceImpl_def new_chan_def Start_def Start_body_def
      Stop_def FinalStop_def StopAndWait_def EndWait_def EndWait_body_def doStop_def
      finish_send_def chan_send_def chan_close_def closes_def)

text \<open>
  C8, amended. Whatever a new service goes through (calls of \<open>Start\<close>, \<open>Stop\<close>,
  \<open>FinalStop\<close>, \<open>StopAndWait\<close> and \<open>EndWait\<close>, values received from the status channel,
  goroutines that start and return), no call panics, and the status channel has been
  closed once when the status is \<open>FinalStopped\<close> and the call that set it has returned,
  and never otherwise. Once the status is \<open>FinalStopped\<close> it stays so whatever follows.
  While the call that set it still holds the lock, it waits at the send of
  \<open>FinalStopped\<close> on a full buffer; once the lock is free, \<open>Start\<close> returns the error
  \<open>ServerDefinitelyStopped\<close>, and \<open>Start\<close>, \<open>Stop\<close>, \<open>FinalStop\<close>, \<open>StopAndWait\<close> and
  \<open>EndWait\<close> leave the whole state as it is.
\<close>

theorem FinalStopped_terminal:
  "\<exists>s. sup_run ops (NewRelpServiceImpl qsize fs) = Inr s \<and>
       closes s = (if status s = FinalStopped \<and> locked s = None then 1 else 0) \<and>
       (status s = FinalStopped \<longrightarrow>
          (\<forall>ops'. \<exists>s'. sup_run ops' s = Inr s' \<and> status s' = FinalStopped \<and>
               closes s' = (if locked s' = None then 1 else 0)) \<and>
          (locked s \<noteq> None \<longrightarrow>
             locked s = Some (AtSend FinalStopped) \<and> 10 \<le> length (chan_buf (StatusChan s))) \<and>
          (locked s = None \<longrightarrow>
             (\<forall>n cpus. Start n cpus s = Inr (Some ServerDefinitelyStopped, s)) \<and>
             Stop s = Inr s \<and> FinalStop s = Inr s \<and> StopAndWait s = Inr s \<and>
             EndWait s = Inr s))"
proof -
  from sup_run_inv[OF sup_inv_new, of ops qsize fs] obtain s where
    1: "sup_run ops (NewRelpServiceImpl qsize fs) = Inr s" and 2: "sup_inv s" by blast
  have a: "closes s = (if status s = FinalStopped \<and> locked s = None then 1 else 0)"
    by (rule sup_inv_D(1)[OF 2])
  have b: "\<exists>s'. sup_run ops' s = Inr s' \<and> status s' = FinalStopped \<and>
               closes s' = (if locked s' = None then 1 else 0)"
    if f: "status s = FinalStopped" for ops'
  proof -
    from sup_run_inv[OF 2, of ops'] f obtain s' where
      r: "sup_run ops' s = Inr s'" and i: "sup_inv s'" and st: "status s' = FinalStopped"
      by blast
    from sup_inv_D(1)[OF i] st have "closes s' = (if locked s' = None then 1 else 0)" by simp
    with r st show ?thesis by blast
  qed
  have c: "locked s = Some (AtSend FinalStopped) \<and> 10 \<le> length (chan_buf (StatusChan s))"
    if f: "status s = FinalStopped" and l: "locked s \<noteq> None"
  proof -
    from l obtain p where p: "locked s = Some p" by blast
    show ?thesis using 2 f p unfolding sup_inv_def by (cases p) auto
  qed
  show ?thesis
    using 1 a b c FinalStopped_calls[of s] by (intro exI[of _ s]) blast
qed

theorem FinalStopped_terminal_witness:
  "\<exists>s. sup_run [OpStart 1 2, OpFinalStop, OpParserDone, OpParserDone] (NewRelpServiceImpl 8 []) =
         Inr s \<and>
       status s = FinalStopped \<and> closes s = 1 \<and>
       chan_buf (StatusChan s) = [Started, FinalStopped] \<and>
       (\<exists>s'. sup_run [OpStart 1 4, OpRecv, OpStop, OpEndWait] s = Inr s' \<and>
             status s' = FinalStopped) \<and>
       Start 1 4 s = Inr (Some ServerDefinitelyStopped, s) \<and> FinalStop s = Inr s"
proof -
  let ?ops = "[OpStart 1 2, OpFinalStop, OpParserDone, OpParserDone]"
  obtain t where t: "sup_run ?ops (NewRelpServiceImpl 8 []) = Inr t"
    and st: "status t = FinalStopped" and l: "locked t = None"
    and b: "chan_buf (StatusChan t) = [Started, FinalStopped]"
    by (simp add: NewRelpServiceImpl_def new_chan_def Start_def Start_body_def FinalStop_def
        doStop_def after_parsewg_def after_wg_def resume_def finish_send_def chan_send_def
        chan_close_def)
  from FinalStopped_terminal[of ?ops 8 "[]"] obtain s where
    1: "sup_run ?ops (NewRelpServiceImpl 8 []) = Inr s"
    and 2: "closes s = (if status s = FinalStopped \<and> locked s = None then 1 else 0)"
    and 3: "status s = FinalStopped \<longrightarrow>
          (\<forall>ops'. \<exists>s'. sup_run ops' s = Inr s' \<and> status s' = FinalStopped \<and>
               closes s' = (if locked s' = None then 1 else 0)) \<and>
          (locked s \<noteq> None \<longrightarrow>
             locked s = Some (AtSend FinalStopped) \<and> 10 \<le> length (chan_buf (StatusChan s))) \<and>
          (locked s = None \<longrightarrow>
             (\<forall>n cpus. Start n cpus s = Inr (Some ServerDefinitelyStopped, s)) \<and>
             Stop s = Inr s \<and> FinalStop s = Inr s \<and> StopAndWait s = Inr s \<and>
             EndWait s = Inr s)"
    by (elim exE conjE) (rule that)
  from 1 t have e: "s = t" by simp
  have st': "status s = FinalStopped" and l': "locked s = None"
    and b': "chan_buf (StatusChan s) = [Started, FinalStopped]"
    using st l b e by simp_all
  from 3 st' have
    x: "\<forall>ops'. \<exists>s'. sup_run ops' s = Inr s' \<and> status s' = FinalStopped \<and>
               closes s' = (if locked s' = None then 1 else 0)"
    and y: "locked s = None \<longrightarrow>
             (\<forall>n cpus. Start n cpus s = Inr (Some ServerDefinitelyStopped, s)) \<and>
             Stop s = Inr s \<and> FinalStop s = Inr s \<and> StopAndWait s = Inr s \<and>
             EndWait s = Inr s"
    by simp_all
  from x have
    4: "\<exists>s'. sup_run [OpStart 1 4, OpRecv, OpStop, OpEndWait] s = Inr s' \<and>
             status s' = FinalStopped"
    by blast
  from y l' have 5: "Start 1 4 s = Inr (Some ServerDefinitelyStopped, s)"
    and 6: "FinalStop s = Inr s"
    by simp_all
  from 2 st' l' have 7: "closes s = 1" by simp
  show ?thesis
    apply (rule exI[of _ s])
    apply (intro conjI)
          apply (rule 1)
         apply (rule st')
        apply (rule 7)
       apply (rule b')
      apply (rule 4)
     apply (rule 5)
    apply (rule 6)
    done
qed

subsection \<open>The connection handler\<close>

declare digits10.simps [simp del]


lemma succ_RemoveConn [simp]: "succ (RemoveConn f c) c = None"
  by (simp add: RemoveConn_def Let_def split: option.splits)


lemmas eval_defs = handle_frame_def Atoi_def ParseInt_def ParseUint_def digit_val_def Let_def
  ex_h_def handler_start_def ex_sys_def
  ex_ctx_def NewRelpServiceImpl_def AddConn_new conn_write_def Received_def ForwardSucc_def
  ForwardFail_def Put_def NewIntQueue_def PoolGet_def new_raw_def RingPut_def NewRing_def
  copy_bytes_def Trim_def blanks_def open_reply_def close_reply_def fmt_d_def digits10.simps
  digit_char_def protocol_error_def

lemma SplitN_open0: "SplitN ''1 open 0'' sp 4 = [''1'', ''open'', ''0'']"
  by (simp add: sp_def numeral_eq_Suc)

lemma SplitN_open5: "SplitN ''1 open 5'' sp 4 = [''1'', ''open'', ''5'']"
  by (simp add: sp_def numeral_eq_Suc)

lemma SplitN_open5hello: "SplitN ''1 open 5 hello'' sp 4 = [''1'', ''open'', ''5'', ''hello'']"
  by (simp add: sp_def numeral_eq_Suc)

lemma SplitN_open_sp_hello:
  "SplitN ''1 open 6  hello'' sp 4 = [''1'', ''open'', ''6'', '' hello'']"
  by (simp add: sp_def numeral_eq_Suc)

lemma SplitN_open5abc: "SplitN ''1 open 5 abc'' sp 4 = [''1'', ''open'', ''5'', ''abc'']"
  by (simp add: sp_def numeral_eq_Suc)

lemma SplitN_syslog_hello:
  "SplitN ''2 syslog 5 hello'' sp 4 = [''2'', ''syslog'', ''5'', ''hello'']"
  by (simp add: sp_def numeral_eq_Suc)

lemma SplitN_syslog_again:
  "SplitN ''2 syslog 5 again'' sp 4 = [''2'', ''syslog'', ''5'', ''again'']"
  by (simp add: sp_def numeral_eq_Suc)

lemma SplitN_syslog_sp_hello:
  "SplitN ''2 syslog 6  hello'' sp 4 = [''2'', ''syslog'', ''6'', '' hello'']"
  by (simp add: sp_def numeral_eq_Suc)

lemma SplitN_syslog0hello:
  "SplitN ''2 syslog 0 hello'' sp 4 = [''2'', ''syslog'', ''0'', ''hello'']"
  by (simp add: sp_def numeral_eq_Suc)

lemma SplitN_syslog0: "SplitN ''2 syslog 0'' sp 4 = [''2'', ''syslog'', ''0'']"
  by (simp add: sp_def numeral_eq_Suc)

lemma SplitN_close0: "SplitN ''3 close 0'' sp 4 = [''3'', ''close'', ''0'']"
  by (simp add: sp_def numeral_eq_Suc)

lemmas eval_splits = SplitN_open0 SplitN_open5 SplitN_open5abc SplitN_open5hello
  SplitN_open_sp_hello SplitN_syslog_hello
  SplitN_syslog_again SplitN_syslog_sp_hello SplitN_syslog0 SplitN_syslog0hello SplitN_close0





lemma HandleConnection_alt:
  "HandleConnection ctx toks s =
     (case handle_loop (fst (handler_start ctx s)) (snd (handler_start ctx s)) toks of
        (fl, h) \<Rightarrow>
          if fl = Waits then (Waits, st h)
          else (if fl = Next then Exit else fl, handler_exit (fst (handler_start ctx s)) (st h)))"
  by (simp add: HandleConnection_def Let_def split: prod.splits)



text \<open>
  The claim C5 as it is written fails: the frame \<open>1 open 5 abc\<close> declares five bytes of
  data and carries three. The handler takes it, answers the open and counts no protocol
  error.
\<close>

theorem datalen_mismatch_accepted:
  "fst (Atoi (SplitN ''1 open 5 abc'' sp 4 ! 2)) = 5 \<and>
   length (SplitN ''1 open 5 abc'' sp 4 ! 3) = 3 \<and>
   fst (handle_frame ex_ctx ex_h ''1 open 5 abc'') = Next \<and>
   wire (st (snd (handle_frame ex_ctx ex_h ''1 open 5 abc''))) =
     [''1 rsp 10 200 OK'' @ [CHR 0x0A] @ ''abc'' @ [CHR 0x0A]] \<and>
   relpProtocolErrorsCounter (st (snd (handle_frame ex_ctx ex_h ''1 open 5 abc'')))
     ''10.0.0.7'' = 0"
  by (simp add: eval_defs eval_splits)

text \<open>
  C5, amended. The handler checks the declared length against the data in one case: a
  frame with an increasing TXNR that declares a length other than zero and has no data
  field (three fields) is a protocol error. The counter of the client goes up by one,
  the loop is left, and nothing is written.
\<close>

theorem datalen_without_data:
  assumes "previous h < fst (Atoi (SplitN tok sp 4 ! 0))"
    and "length (SplitN tok sp 4) = 3"
    and "fst (Atoi (SplitN tok sp 4 ! 2)) \<noteq> 0"
  shows "handle_loop ctx h (tok # rest) =
           (Exit, h\<lparr>previous := fst (Atoi (SplitN tok sp 4 ! 0)),
                    st := protocol_error ctx (st h)\<rparr>) \<and>
         relpProtocolErrorsCounter (protocol_error ctx (st h)) (ctx_client ctx) =
           Suc (relpProtocolErrorsCounter (st h) (ctx_client ctx)) \<and>
         wire (protocol_error ctx (st h)) = wire (st h)"
  using assms by (simp add: handle_frame_def Let_def protocol_error_def)

theorem datalen_without_data_witness:
  "fst (handle_loop ex_ctx ex_h [''1 open 5'', ''2 syslog 5 hello'']) = Exit \<and>
   relpProtocolErrorsCounter (st (snd (handle_loop ex_ctx ex_h [''1 open 5'', ''2 syslog 5 hello''])))
     ''10.0.0.7'' = 1 \<and>
   wire (st (snd (handle_loop ex_ctx ex_h [''1 open 5'', ''2 syslog 5 hello'']))) = []"
proof -
  have a: "previous ex_h < fst (Atoi (SplitN ''1 open 5'' sp 4 ! 0))"
    by (simp add: eval_defs eval_splits)
  have b: "length (SplitN ''1 open 5'' sp 4) = 3"
    by (simp add: eval_splits)
  have c: "fst (Atoi (SplitN ''1 open 5'' sp 4 ! 2)) \<noteq> 0"
    by (simp add: eval_defs eval_splits)
  from datalen_without_data[OF a b c, of ex_ctx "[''2 syslog 5 hello'']"]
  show ?thesis by (simp add: eval_defs)
qed

lemma Trim_noop:
  assumes "s \<noteq> []" and "hd s \<notin> set cs" and "last s \<notin> set cs"
  shows "Trim s cs = s"
proof -
  from assms(1,2) have a: "dropWhile (\<lambda>c. c \<in> set cs) s = s" by (cases s) simp_all
  from assms(1,3) have b: "dropWhile (\<lambda>c. c \<in> set cs) (rev s) = rev s"
    by (cases s rule: rev_cases) simp_all
  show ?thesis by (simp add: Trim_def a b)
qed

text \<open>
  The claim C7 as it is written fails where it has the reply echo the payload of the
  frame: the handler echoes the data field after \<open>bytes.Trim\<close> has removed the spaces,
  carriage returns and line feeds at its two ends. The frame \<open>1 open 6  hello\<close> declares
  six bytes of data and carries six, a space and \<open>hello\<close>; the reply echoes the five
  bytes \<open>hello\<close> with the length 12, not the payload with the length 13.
\<close>

theorem open_reply_trimmed:
  "fst (Atoi (SplitN ''1 open 6  hello'' sp 4 ! 2)) = 6 \<and>
   SplitN ''1 open 6  hello'' sp 4 ! 3 = '' hello'' \<and>
   length (SplitN ''1 open 6  hello'' sp 4 ! 3) = 6 \<and>
   fst (handle_frame ex_ctx ex_h ''1 open 6  hello'') = Next \<and>
   wire (st (snd (handle_frame ex_ctx ex_h ''1 open 6  hello''))) =
     [''1 rsp 12 200 OK'' @ [CHR 0x0A] @ ''hello'' @ [CHR 0x0A]]"
  by (simp add: eval_defs eval_splits)

text \<open>
  C7, amended. A frame that passes the checks of the handler (an increasing TXNR, a
  declared length that reads as zero or a data field), whose command is \<open>open\<close> and which
  is the first open of the connection, is answered, when the write succeeds, by exactly
  the bytes \<open>TXNR rsp LEN 200 OK\<close>, a line feed, the echoed data and a line feed. The
  echoed data is the data field of the frame without the spaces, carriage returns and
  line feeds at its two ends, so the data field itself when it has none there, and
  nothing when the declared length reads as zero; \<open>LEN\<close> is the length of the echoed
  data plus 7. The session is open afterwards.
\<close>

theorem open_reply_exact:
  assumes "previous h < fst (Atoi (SplitN tok sp 4 ! 0))"
    and "length (SplitN tok sp 4) = 4 \<or>
         (length (SplitN tok sp 4) = 3 \<and> fst (Atoi (SplitN tok sp 4 ! 2)) = 0)"
    and "SplitN tok sp 4 ! 1 = ''open''"
    and "\<not> relpIsOpen h"
    and "faults (st h) = []"
  shows "(let txnr = fst (Atoi (SplitN tok sp 4 ! 0));
              payload = (if fst (Atoi (SplitN tok sp 4 ! 2)) \<noteq> 0
                         then Trim (SplitN tok sp 4 ! 3) blanks else [])
          in handle_frame ctx h tok =
               (Next, h\<lparr>previous := txnr,
                        st := (st h)\<lparr>wire := wire (st h) @
                           [fmt_d txnr @ '' rsp '' @ fmt_d (int (length payload) + 7) @
                            '' 200 OK'' @ [CHR 0x0A] @ payload @ [CHR 0x0A]]\<rparr>,
                        relpIsOpen := True\<rparr>) \<and>
             (fst (Atoi (SplitN tok sp 4 ! 2)) \<noteq> 0 \<and> SplitN tok sp 4 ! 3 \<noteq> [] \<and>
              hd (SplitN tok sp 4 ! 3) \<notin> set blanks \<and> last (SplitN tok sp 4 ! 3) \<notin> set blanks
              \<longrightarrow> payload = SplitN tok sp 4 ! 3))"
  using assms
  by (auto simp add: handle_frame_def Let_def conn_write_def open_reply_def Trim_noop)

theorem open_reply_exact_witness:
  "handle_frame ex_ctx ex_h ''1 open 5 hello'' =
     (Next, ex_h\<lparr>previous := 1,
                 st := (st ex_h)\<lparr>wire := [''1 rsp 12 200 OK'' @ [CHR 0x0A] @ ''hello'' @ [CHR 0x0A]]\<rparr>,
                 relpIsOpen := True\<rparr>)"
proof -
  let ?tok = "''1 open 5 hello''"
  have a: "previous ex_h < fst (Atoi (SplitN ?tok sp 4 ! 0))"
    by (simp add: eval_defs eval_splits)
  have b: "length (SplitN ?tok sp 4) = 4 \<or>
         (length (SplitN ?tok sp 4) = 3 \<and> fst (Atoi (SplitN ?tok sp 4 ! 2)) = 0)"
    by (simp add: eval_splits)
  have c: "SplitN ?tok sp 4 ! 1 = ''open''"
    by (simp add: eval_splits)
  have d: "\<not> relpIsOpen ex_h" by (simp add: ex_h_def handler_start_def split: prod.splits)
  have e: "faults (st ex_h) = []"
    by (simp add: ex_h_def handler_start_def ex_sys_def NewRelpServiceImpl_def split: prod.splits)
  have w: "wire (st ex_h) = []"
    by (simp add: ex_h_def handler_start_def ex_sys_def NewRelpServiceImpl_def split: prod.splits)
  have n: "fst (Atoi (SplitN ?tok sp 4 ! 2)) \<noteq> 0 \<and> SplitN ?tok sp 4 ! 3 \<noteq> [] \<and>
           hd (SplitN ?tok sp 4 ! 3) \<notin> set blanks \<and> last (SplitN ?tok sp 4 ! 3) \<notin> set blanks"
    by (simp add: eval_splits Atoi_def ParseInt_def ParseUint_def digit_val_def blanks_def)
  have p: "SplitN ?tok sp 4 ! 3 = ''hello''" and t: "fst (Atoi (SplitN ?tok sp 4 ! 0)) = 1"
    by (simp_all add: eval_splits Atoi_def ParseInt_def ParseUint_def digit_val_def)
  from open_reply_exact[OF a b c d e, of ex_ctx] n
  have "handle_frame ex_ctx ex_h ?tok =
          (Next, ex_h\<lparr>previous := fst (Atoi (SplitN ?tok sp 4 ! 0)),
                  st := (st ex_h)\<lparr>wire := wire (st ex_h) @
                     [fmt_d (fst (Atoi (SplitN ?tok sp 4 ! 0))) @ '' rsp '' @
                      fmt_d (int (length (SplitN ?tok sp 4 ! 3)) + 7) @
                      '' 200 OK'' @ [CHR 0x0A] @ SplitN ?tok sp 4 ! 3 @ [CHR 0x0A]]\<rparr>,
                  relpIsOpen := True\<rparr>)"
    unfolding Let_def by (elim conjE impE) simp_all
  then show ?thesis
    unfolding p t w by (simp add: fmt_d_def digits10.simps digit_char_def)
qed

subsection \<open>From the frame to the parser\<close>








subsection \<open>The parser worker\<close>



lemma forwarder_PoolPut [simp]: "forwarder (PoolPut r s) = forwarder s"
  by (simp add: PoolPut_def)








subsection \<open>The response writer and the order of the answers\<close>

declare cooking.simps [simp del]

lemma lookup_del [simp]: "lookup (m(k := None)) t = (t \<noteq> k \<and> lookup m t)"
  by (simp add: lookup_def)

lemma lookup_add [simp]: "lookup (m(k \<mapsto> True)) t = (t = k \<or> lookup m t)"
  by (simp add: lookup_def)

lemma lookup_empty [simp]: "lookup Map.empty t = False"
  by (simp add: lookup_def)

lemma conn_at_Received:
  "conn_at f cid qs qf qc \<Longrightarrow>
   conn_at (Received f cid t) cid qs qf qc \<and>
   items (queues (Received f cid t) qc) = items (queues f qc) @ [t] \<and>
   queues (Received f cid t) qs = queues f qs \<and>
   queues (Received f cid t) qf = queues f qf"
  by (simp add: conn_at_def Received_def Put_def)

lemma conn_at_ForwardSucc:
  "conn_at f cid qs qf qc \<Longrightarrow>
   conn_at (ForwardSucc f cid t) cid qs qf qc \<and>
   items (queues (ForwardSucc f cid t) qs) = items (queues f qs) @ [t] \<and>
   queues (ForwardSucc f cid t) qc = queues f qc \<and>
   queues (ForwardSucc f cid t) qf = queues f qf"
  by (simp add: conn_at_def ForwardSucc_def Put_def)

lemma conn_at_ForwardFail:
  "conn_at f cid qs qf qc \<Longrightarrow>
   conn_at (ForwardFail f cid t) cid qs qf qc \<and>
   items (queues (ForwardFail f cid t) qf) = items (queues f qf) @ [t] \<and>
   queues (ForwardFail f cid t) qc = queues f qc \<and>
   queues (ForwardFail f cid t) qs = queues f qs"
  by (simp add: conn_at_def ForwardFail_def Put_def)

lemma conn_at_GetSucc:
  "conn_at f cid qs qf qc \<Longrightarrow>
   fst (GetSucc f cid) = (case items (queues f qs) of [] \<Rightarrow> - 1 | x # xs \<Rightarrow> x) \<and>
   conn_at (snd (GetSucc f cid)) cid qs qf qc \<and>
   items (queues (snd (GetSucc f cid)) qs) = tl (items (queues f qs)) \<and>
   queues (snd (GetSucc f cid)) qc = queues f qc \<and>
   queues (snd (GetSucc f cid)) qf = queues f qf"
  by (simp add: conn_at_def GetSucc_def Get_def split: list.splits)

lemma conn_at_GetFail:
  "conn_at f cid qs qf qc \<Longrightarrow>
   fst (GetFail f cid) = (case items (queues f qf) of [] \<Rightarrow> - 1 | x # xs \<Rightarrow> x) \<and>
   conn_at (snd (GetFail f cid)) cid qs qf qc \<and>
   items (queues (snd (GetFail f cid)) qf) = tl (items (queues f qf)) \<and>
   queues (snd (GetFail f cid)) qc = queues f qc \<and>
   queues (snd (GetFail f cid)) qs = queues f qs"
  by (simp add: conn_at_def GetFail_def Get_def split: list.splits)

lemma conn_at_NextToCommit:
  "conn_at f cid qs qf qc \<Longrightarrow>
   NextToCommit f cid = (case items (queues f qc) of [] \<Rightarrow> - 1 | x # xs \<Rightarrow> x)"
  by (simp add: conn_at_def NextToCommit_def Peek_def split: list.splits)

lemma conn_at_Commit:
  "conn_at f cid qs qf qc \<Longrightarrow>
   conn_at (Commit f cid) cid qs qf qc \<and>
   items (queues (Commit f cid) qc) = tl (items (queues f qc)) \<and>
   queues (Commit f cid) qs = queues f qs \<and>
   queues (Commit f cid) qf = queues f qf"
  by (simp add: conn_at_def Commit_def Get_def split: list.splits)

lemma conn_at_Wait:
  "conn_at f cid qs qf qc \<Longrightarrow>
   Wait f cid = (if items (queues f qs) \<noteq> [] \<or> items (queues f qf) \<noteq> [] then Some True else None)"
  by (simp add: conn_at_def Wait_def WaitOne_def)

lemma conn_gone_RemoveConn: "conn_gone (RemoveConn f cid) cid"
  by (simp add: conn_gone_def RemoveConn_def Let_def split: option.splits)

lemma conn_gone_ops:
  "conn_gone f cid \<Longrightarrow>
   Received f cid t = f \<and> ForwardSucc f cid t = f \<and> ForwardFail f cid t = f \<and>
   RemoveConn f cid = f \<and> Wait f cid = Some False"
  by (simp add: conn_gone_def Received_def ForwardSucc_def ForwardFail_def RemoveConn_def
      Wait_def Let_def fun_upd_idem)

lemma conn_at_AddConn:
  "conn_at (snd (AddConn f)) (fst (AddConn f)) (nqueues f) (nqueues f + 1) (nqueues f + 2) \<and>
   items (queues (snd (AddConn f)) (nqueues f)) = [] \<and>
   items (queues (snd (AddConn f)) (nqueues f + 1)) = [] \<and>
   items (queues (snd (AddConn f)) (nqueues f + 2)) = []"
  by (simp add: conn_at_def AddConn_def Let_def NewIntQueue_def)

lemma conn_write_OK:
  "conn_write bs s = (WriteOK, s1) \<Longrightarrow>
   s1 = s\<lparr>wire := wire s @ [bs], faults := tl (faults s)\<rparr>"
  by (auto simp: conn_write_def split: list.splits if_splits)

lemma conn_write_not_OK:
  "conn_write bs s = (r, s1) \<Longrightarrow> r \<noteq> WriteOK \<Longrightarrow> s1 = s\<lparr>faults := tl (faults s)\<rparr> \<and> faults s \<noteq> []"
  by (auto simp: conn_write_def split: list.splits if_splits)

lemma conn_write_nofault: "faults s = [] \<Longrightarrow> conn_write bs s = (WriteOK, s\<lparr>wire := wire s @ [bs]\<rparr>)"
  by (simp add: conn_write_def)

lemma cook_stop1:
  "NextToCommit (forwarder s) cid = - 1 \<Longrightarrow> cooking cid cl w s = (Next, w, s)"
  by (subst cooking.simps) (simp add: Let_def)

lemma cook_stop2:
  "\<not> lookup (successes w) (NextToCommit (forwarder s) cid) \<Longrightarrow>
   \<not> lookup (failures w) (NextToCommit (forwarder s) cid) \<Longrightarrow>
   cooking cid cl w s = (Next, w, s)"
  by (subst cooking.simps) (simp add: Let_def)

lemma cook_succ:
  "NextToCommit (forwarder s) cid = nxt \<Longrightarrow> nxt \<noteq> - 1 \<Longrightarrow> lookup (successes w) nxt \<Longrightarrow>
   cooking cid cl w s =
     (case conn_write (success_reply nxt) s of
        (WriteOK, s1) \<Rightarrow>
          cooking cid cl (w\<lparr>successes := (successes w)(nxt := None)\<rparr>)
            ((answers_inc ''200'' cl s1)\<lparr>forwarder := Commit (forwarder s1) cid\<rparr>)
      | (WriteEOF, s1) \<Rightarrow> (Exit, w, s1)
      | (WriteTimeout, s1) \<Rightarrow> cooking cid cl w s1
      | (WriteError, s1) \<Rightarrow> (Exit, w, s1))"
  by (subst cooking.simps) (simp add: Let_def)

lemma cook_fail:
  "NextToCommit (forwarder s) cid = nxt \<Longrightarrow> nxt \<noteq> - 1 \<Longrightarrow> \<not> lookup (successes w) nxt \<Longrightarrow>
   lookup (failures w) nxt \<Longrightarrow>
   cooking cid cl w s =
     (case conn_write (failure_reply nxt) s of
        (WriteOK, s1) \<Rightarrow>
          cooking cid cl (w\<lparr>failures := (failures w)(nxt := None)\<rparr>)
            ((answers_inc ''500'' cl s1)\<lparr>forwarder := Commit (forwarder s1) cid\<rparr>)
      | (WriteEOF, s1) \<Rightarrow> (Exit, w, s1)
      | (WriteTimeout, s1) \<Rightarrow> cooking cid cl w s1
      | (WriteError, s1) \<Rightarrow> (Exit, w, s1))"
  by (subst cooking.simps) (simp add: Let_def)

lemma cooked_refl: "conn_at (forwarder s) cid qs qf qc \<Longrightarrow> cooked cid qs qf qc w s [] (fl, w, s)"
  by (simp add: cooked_def)

lemma cooked_faults:
  "conn_at (forwarder s) cid qs qf qc \<Longrightarrow> cooked cid qs qf qc w s [] (fl, w, s\<lparr>faults := fs\<rparr>)"
  by (simp add: cooked_def)

lemma cooked_faults_step:
  "cooked cid qs qf qc w (s\<lparr>faults := fs\<rparr>) acks r \<Longrightarrow> cooked cid qs qf qc w s acks r"
  by (simp add: cooked_def split: prod.splits)

lemma cooked_succ_step:
  assumes c: "conn_at (forwarder s) cid qs qf qc"
    and i: "items (queues (forwarder s) qc) = nxt # xs"
    and l: "lookup (successes w) nxt"
    and r: "cooked cid qs qf qc (w\<lparr>successes := (successes w)(nxt := None)\<rparr>)
              ((answers_inc code cl (s\<lparr>wire := wire s @ [success_reply nxt], faults := fs\<rparr>))
                 \<lparr>forwarder := Commit (forwarder s) cid\<rparr>) acks r"
  shows "cooked cid qs qf qc w s ((nxt, True) # acks) r"
  using r i l conn_at_Commit[OF c]
  by (auto simp add: cooked_def answers_inc_def ack_frame_def split: prod.splits)

lemma cooked_fail_step:
  assumes c: "conn_at (forwarder s) cid qs qf qc"
    and i: "items (queues (forwarder s) qc) = nxt # xs"
    and l: "lookup (failures w) nxt"
    and r: "cooked cid qs qf qc (w\<lparr>failures := (failures w)(nxt := None)\<rparr>)
              ((answers_inc code cl (s\<lparr>wire := wire s @ [failure_reply nxt], faults := fs\<rparr>))
                 \<lparr>forwarder := Commit (forwarder s) cid\<rparr>) acks r"
  shows "cooked cid qs qf qc w s ((nxt, False) # acks) r"
  using r i l conn_at_Commit[OF c]
  by (auto simp add: cooked_def answers_inc_def ack_frame_def split: prod.splits)


lemma cooking_cooked:
  "conn_at (forwarder s) cid qs qf qc \<Longrightarrow> \<exists>acks. cooked cid qs qf qc w s acks (cooking cid cl w s)"
proof (induction cid cl w s rule: cooking.induct)
  case (1 cid cl w s)
  note c = "1.prems"
  let ?nxt = "NextToCommit (forwarder s) cid"
  show ?case
  proof (cases "?nxt = - 1")
    case True
    then show ?thesis using cook_stop1[OF True] cooked_refl[OF c] by metis
  next
    case False
    then obtain xs where i: "items (queues (forwarder s) qc) = ?nxt # xs"
      using conn_at_NextToCommit[OF c] by (auto split: list.splits)
    show ?thesis
    proof (cases "lookup (successes w) ?nxt")
      case True
      obtain r s1 where cw: "conn_write (success_reply ?nxt) s = (r, s1)"
        by (cases "conn_write (success_reply ?nxt) s") auto
      show ?thesis
      proof (cases "r = WriteOK")
        case ok: True
        from cw ok have s1: "s1 = s\<lparr>wire := wire s @ [success_reply ?nxt], faults := tl (faults s)\<rparr>"
          using conn_write_OK by blast
        have e: "cooking cid cl w s =
                 cooking cid cl (w\<lparr>successes := (successes w)(?nxt := None)\<rparr>)
                   ((answers_inc ''200'' cl s1)\<lparr>forwarder := Commit (forwarder s1) cid\<rparr>)"
          using cook_succ[OF refl False True, of cl] cw ok by simp
        have c': "conn_at (forwarder ((answers_inc ''200'' cl s1)\<lparr>forwarder := Commit (forwarder s1) cid\<rparr>)) cid qs qf qc"
          using conn_at_Commit[OF c] by (simp add: s1)
        from "1.IH"(1)[OF refl False True cw[symmetric] ok c'] obtain acks where
          "cooked cid qs qf qc (w\<lparr>successes := (successes w)(?nxt := None)\<rparr>)
             ((answers_inc ''200'' cl s1)\<lparr>forwarder := Commit (forwarder s1) cid\<rparr>) acks
             (cooking cid cl w s)"
          unfolding e by blast
        then have "cooked cid qs qf qc w s ((?nxt, True) # acks) (cooking cid cl w s)"
          using cooked_succ_step[OF c i True] by (simp add: s1)
        then show ?thesis by blast
      next
        case nok: False
        from conn_write_not_OK[OF cw nok] have s1: "s1 = s\<lparr>faults := tl (faults s)\<rparr>" by simp
        show ?thesis
        proof (cases "r = WriteTimeout")
          case to: True
          have e: "cooking cid cl w s = cooking cid cl w s1"
            using cook_succ[OF refl False True, of cl] cw to by simp
          have c': "conn_at (forwarder s1) cid qs qf qc" using c by (simp add: s1)
          from "1.IH"(2)[OF refl False True cw[symmetric] to c'] obtain acks where
            "cooked cid qs qf qc w s1 acks (cooking cid cl w s)" unfolding e by blast
          then show ?thesis using cooked_faults_step unfolding s1 by blast
        next
          case False
          with nok have "cooking cid cl w s = (Exit, w, s1)"
            using cook_succ[OF refl \<open>?nxt \<noteq> - 1\<close> True, of cl] cw by (cases r) simp_all
          then show ?thesis using cooked_faults[OF c] unfolding s1 by metis
        qed
      qed
    next
      case ns: False
      show ?thesis
      proof (cases "lookup (failures w) ?nxt")
        case False
        then show ?thesis using cook_stop2[OF ns False] cooked_refl[OF c] by metis
      next
        case True
        obtain r s1 where cw: "conn_write (failure_reply ?nxt) s = (r, s1)"
          by (cases "conn_write (failure_reply ?nxt) s") auto
        show ?thesis
        proof (cases "r = WriteOK")
          case ok: True
          from cw ok have s1: "s1 = s\<lparr>wire := wire s @ [failure_reply ?nxt], faults := tl (faults s)\<rparr>"
            using conn_write_OK by blast
          have e: "cooking cid cl w s =
                   cooking cid cl (w\<lparr>failures := (failures w)(?nxt := None)\<rparr>)
                     ((answers_inc ''500'' cl s1)\<lparr>forwarder := Commit (forwarder s1) cid\<rparr>)"
            using cook_fail[OF refl \<open>?nxt \<noteq> - 1\<close> ns True, of cl] cw ok by simp
          have c': "conn_at (forwarder ((answers_inc ''500'' cl s1)\<lparr>forwarder := Commit (forwarder s1) cid\<rparr>)) cid qs qf qc"
            using conn_at_Commit[OF c] by (simp add: s1)
          from "1.IH"(3)[OF refl \<open>?nxt \<noteq> - 1\<close> ns True cw[symmetric] ok c'] obtain acks where
            "cooked cid qs qf qc (w\<lparr>failures := (failures w)(?nxt := None)\<rparr>)
               ((answers_inc ''500'' cl s1)\<lparr>forwarder := Commit (forwarder s1) cid\<rparr>) acks
               (cooking cid cl w s)"
            unfolding e by blast
          then have "cooked cid qs qf qc w s ((?nxt, False) # acks) (cooking cid cl w s)"
            using cooked_fail_step[OF c i True] by (simp add: s1)
          then show ?thesis by blast
        next
          case nok: False
          from conn_write_not_OK[OF cw nok] have s1: "s1 = s\<lparr>faults := tl (faults s)\<rparr>" by simp
          show ?thesis
          proof (cases "r = WriteTimeout")
            case to: True
            have e: "cooking cid cl w s = cooking cid cl w s1"
              using cook_fail[OF refl \<open>?nxt \<noteq> - 1\<close> ns True, of cl] cw to by simp
            have c': "conn_at (forwarder s1) cid qs qf qc" using c by (simp add: s1)
            from "1.IH"(4)[OF refl \<open>?nxt \<noteq> - 1\<close> ns True cw[symmetric] to c'] obtain acks where
              "cooked cid qs qf qc w s1 acks (cooking cid cl w s)" unfolding e by blast
            then show ?thesis using cooked_faults_step unfolding s1 by blast
          next
            case False
            with nok have "cooking cid cl w s = (Exit, w, s1)"
              using cook_fail[OF refl \<open>?nxt \<noteq> - 1\<close> ns True, of cl] cw by (cases r) simp_all
            then show ?thesis using cooked_faults[OF c] unfolding s1 by metis
          qed
        qed
      qed
    qed
  qed
qed

lemma cooking_quiet:
  "conn_at (forwarder s) cid qs qf qc \<Longrightarrow> faults s = [] \<Longrightarrow>
   (case cooking cid cl w s of (fl, w', s') \<Rightarrow>
      fl = Next \<and> faults s' = [] \<and>
      (case items (queues (forwarder s') qc) of
         [] \<Rightarrow> True
       | x # xs \<Rightarrow> x = - 1 \<or> (\<not> lookup (successes w') x \<and> \<not> lookup (failures w') x)))"
proof (induction cid cl w s rule: cooking.induct)
  case (1 cid cl w s)
  note c = "1.prems"(1) and nf = "1.prems"(2)
  let ?nxt = "NextToCommit (forwarder s) cid"
  note n = conn_at_NextToCommit[OF c]
  show ?case
  proof (cases "?nxt = - 1")
    case True
    then show ?thesis using cook_stop1[OF True, of cl w] nf n by (auto split: list.splits)
  next
    case False
    show ?thesis
    proof (cases "lookup (successes w) ?nxt")
      case True
      let ?s1 = "s\<lparr>wire := wire s @ [success_reply ?nxt]\<rparr>"
      have cw: "conn_write (success_reply ?nxt) s = (WriteOK, ?s1)"
        using conn_write_nofault[OF nf] by simp
      have e: "cooking cid cl w s =
               cooking cid cl (w\<lparr>successes := (successes w)(?nxt := None)\<rparr>)
                 ((answers_inc ''200'' cl ?s1)\<lparr>forwarder := Commit (forwarder ?s1) cid\<rparr>)"
        using cook_succ[OF refl False True, of cl] cw by simp
      have c': "conn_at (forwarder ((answers_inc ''200'' cl ?s1)\<lparr>forwarder := Commit (forwarder ?s1) cid\<rparr>)) cid qs qf qc"
        using conn_at_Commit[OF c] by simp
      have nf': "faults ((answers_inc ''200'' cl ?s1)\<lparr>forwarder := Commit (forwarder ?s1) cid\<rparr>) = []"
        using nf by (simp add: answers_inc_def)
      from "1.IH"(1)[OF refl False True cw[symmetric] refl c' nf'] show ?thesis
        unfolding e .
    next
      case ns: False
      show ?thesis
      proof (cases "lookup (failures w) ?nxt")
        case False
        then show ?thesis using cook_stop2[OF ns False, of cl] nf n ns
          by (auto split: list.splits)
      next
        case True
        let ?s1 = "s\<lparr>wire := wire s @ [failure_reply ?nxt]\<rparr>"
        have cw: "conn_write (failure_reply ?nxt) s = (WriteOK, ?s1)"
          using conn_write_nofault[OF nf] by simp
        have e: "cooking cid cl w s =
                 cooking cid cl (w\<lparr>failures := (failures w)(?nxt := None)\<rparr>)
                   ((answers_inc ''500'' cl ?s1)\<lparr>forwarder := Commit (forwarder ?s1) cid\<rparr>)"
          using cook_fail[OF refl \<open>?nxt \<noteq> - 1\<close> ns True, of cl] cw by simp
        have c': "conn_at (forwarder ((answers_inc ''500'' cl ?s1)\<lparr>forwarder := Commit (forwarder ?s1) cid\<rparr>)) cid qs qf qc"
          using conn_at_Commit[OF c] by simp
        have nf': "faults ((answers_inc ''500'' cl ?s1)\<lparr>forwarder := Commit (forwarder ?s1) cid\<rparr>) = []"
          using nf by (simp add: answers_inc_def)
        from "1.IH"(3)[OF refl \<open>?nxt \<noteq> - 1\<close> ns True cw[symmetric] refl c' nf'] show ?thesis
          unfolding e .
      qed
    qed
  qed
qed

lemma writer_pass_blocked:
  "conn_at (forwarder s) cid qs qf qc \<Longrightarrow> items (queues (forwarder s) qs) = [] \<Longrightarrow>
   items (queues (forwarder s) qf) = [] \<Longrightarrow> writer_pass cid cl w s = (Waits, w, s)"
  by (simp add: writer_pass_def conn_at_Wait)

lemma writer_pass_runs:
  assumes c: "conn_at (forwarder s) cid qs qf qc"
    and ne: "items (queues (forwarder s) qs) \<noteq> [] \<or> items (queues (forwarder s) qf) \<noteq> []"
  shows "writer_pass cid cl w s =
     cooking cid cl
       ((if fst (GetSucc (forwarder s) cid) \<noteq> - 1
         then w\<lparr>successes := (successes w)(fst (GetSucc (forwarder s) cid) \<mapsto> True)\<rparr> else w)
        \<lparr>failures :=
           (if fst (GetFail (snd (GetSucc (forwarder s) cid)) cid) \<noteq> - 1
            then (failures w)(fst (GetFail (snd (GetSucc (forwarder s) cid)) cid) \<mapsto> True)
            else failures w)\<rparr>)
       (s\<lparr>forwarder := snd (GetFail (snd (GetSucc (forwarder s) cid)) cid)\<rparr>)"
  using ne by (simp add: writer_pass_def conn_at_Wait[OF c] Let_def split: prod.splits)

lemma writer_pass_passed:
  assumes c: "conn_at (forwarder s) cid qs qf qc"
  shows "\<exists>acks. passed cid qs qf qc w s acks (writer_pass cid cl w s)"
proof (cases "items (queues (forwarder s) qs) = [] \<and> items (queues (forwarder s) qf) = []")
  case True
  then have "writer_pass cid cl w s = (Waits, w, s)"
    using writer_pass_blocked[OF c] by simp
  then have "passed cid qs qf qc w s [] (writer_pass cid cl w s)"
    using c True by (simp add: passed_def)
  then show ?thesis by blast
next
  case False
  let ?f1 = "snd (GetSucc (forwarder s) cid)"
  let ?t1 = "fst (GetSucc (forwarder s) cid)"
  let ?f2 = "snd (GetFail ?f1 cid)"
  let ?t2 = "fst (GetFail ?f1 cid)"
  let ?w2 = "(if ?t1 \<noteq> - 1 then w\<lparr>successes := (successes w)(?t1 \<mapsto> True)\<rparr> else w)
        \<lparr>failures := (if ?t2 \<noteq> - 1 then (failures w)(?t2 \<mapsto> True) else failures w)\<rparr>"
  let ?s2 = "s\<lparr>forwarder := ?f2\<rparr>"
  note g1 = conn_at_GetSucc[OF c]
  then have c1: "conn_at ?f1 cid qs qf qc" by simp
  note g2 = conn_at_GetFail[OF c1]
  then have c2: "conn_at (forwarder ?s2) cid qs qf qc" by simp
  have e: "writer_pass cid cl w s = cooking cid cl ?w2 ?s2"
    using writer_pass_runs[OF c] False by blast
  from cooking_cooked[OF c2, of ?w2 cl] obtain acks where
    k: "cooked cid qs qf qc ?w2 ?s2 acks (cooking cid cl ?w2 ?s2)" by blast
  obtain fl w' s' where r: "cooking cid cl ?w2 ?s2 = (fl, w', s')"
    by (cases "cooking cid cl ?w2 ?s2") auto
  have "passed cid qs qf qc w s acks (fl, w', s')"
    using k[unfolded r cooked_def] g1 g2
    by (auto simp add: passed_def split: list.splits if_splits)
  then show ?thesis unfolding e r by blast
qed

lemma writer_pass_quiet:
  assumes c: "conn_at (forwarder s) cid qs qf qc" and nf: "faults s = []"
  shows "(case writer_pass cid cl w s of (fl, w', s') \<Rightarrow>
      fl \<noteq> Exit \<and> faults s' = [] \<and>
      (items (queues (forwarder s) qs) \<noteq> [] \<or> items (queues (forwarder s) qf) \<noteq> [] \<longrightarrow>
       (case items (queues (forwarder s') qc) of
          [] \<Rightarrow> True
        | x # xs \<Rightarrow> x = - 1 \<or> (\<not> lookup (successes w') x \<and> \<not> lookup (failures w') x))))"
proof (cases "items (queues (forwarder s) qs) = [] \<and> items (queues (forwarder s) qf) = []")
  case True
  then show ?thesis using writer_pass_blocked[OF c, of cl w] nf by simp
next
  case False
  let ?f1 = "snd (GetSucc (forwarder s) cid)"
  let ?t1 = "fst (GetSucc (forwarder s) cid)"
  let ?f2 = "snd (GetFail ?f1 cid)"
  let ?t2 = "fst (GetFail ?f1 cid)"
  let ?w2 = "(if ?t1 \<noteq> - 1 then w\<lparr>successes := (successes w)(?t1 \<mapsto> True)\<rparr> else w)
        \<lparr>failures := (if ?t2 \<noteq> - 1 then (failures w)(?t2 \<mapsto> True) else failures w)\<rparr>"
  let ?s2 = "s\<lparr>forwarder := ?f2\<rparr>"
  have c1: "conn_at ?f1 cid qs qf qc" using conn_at_GetSucc[OF c] by simp
  have c2: "conn_at (forwarder ?s2) cid qs qf qc" using conn_at_GetFail[OF c1] by simp
  have nf2: "faults ?s2 = []" using nf by simp
  have e: "writer_pass cid cl w s = cooking cid cl ?w2 ?s2"
    using writer_pass_runs[OF c] False by blast
  obtain fl w' s' where r: "cooking cid cl ?w2 ?s2 = (fl, w', s')"
    by (cases "cooking cid cl ?w2 ?s2") auto
  from cooking_quiet[OF c2 nf2, of cl ?w2]
  have "fl = Next \<and> faults s' = [] \<and>
      (case items (queues (forwarder s') qc) of
         [] \<Rightarrow> True
       | x # xs \<Rightarrow> x = - 1 \<or> (\<not> lookup (successes w') x \<and> \<not> lookup (failures w') x))"
    unfolding r by simp
  then show ?thesis unfolding e r by simp
qed

lemma passed_D:
  "passed cid qs qf qc w s acks (fl, w', s') \<Longrightarrow>
   conn_at (forwarder s') cid qs qf qc \<and> wire s' = wire s @ map ack_frame acks \<and>
   items (queues (forwarder s) qc) = map fst acks @ items (queues (forwarder s') qc)"
  by (simp add: passed_def)

lemma passedD:
  "passed cid qs qf qc w s acks (fl, w', s') \<Longrightarrow>
        conn_at (forwarder s') cid qs qf qc \<and>
        wire s' = wire s @ map ack_frame acks \<and>
        items (queues (forwarder s) qc) = map fst acks @ items (queues (forwarder s') qc) \<and>
        items (queues (forwarder s') qs) = tl (items (queues (forwarder s) qs)) \<and>
        items (queues (forwarder s') qf) = tl (items (queues (forwarder s) qf)) \<and>
        (\<forall>t. lookup (successes w') t \<longrightarrow>
             lookup (successes w) t \<or> t \<in> set (take 1 (items (queues (forwarder s) qs)))) \<and>
        (\<forall>t. lookup (failures w') t \<longrightarrow>
             lookup (failures w) t \<or> t \<in> set (take 1 (items (queues (forwarder s) qf)))) \<and>
        (\<forall>t. lookup (successes w) t \<or>
              (t \<in> set (take 1 (items (queues (forwarder s) qs))) \<and> t \<noteq> - 1) \<longrightarrow>
              lookup (successes w') t \<or> t \<in> fst ` set acks) \<and>
        (\<forall>t. lookup (failures w) t \<or>
              (t \<in> set (take 1 (items (queues (forwarder s) qf))) \<and> t \<noteq> - 1) \<longrightarrow>
              lookup (failures w') t \<or> t \<in> fst ` set acks)"
  unfolding passed_def prod.case .

lemma set_take1_tl: "set xs = set (take 1 xs) \<union> set (tl xs)"
  by (cases xs) auto


lemma c_sys_simps [simp]:
  "c_sys (set_sys s c) = s"
  "c_sys (c\<lparr>c_h := h\<rparr>) = st h"
  "c_sys (c\<lparr>c_hflow := x1\<rparr>) = c_sys c"
  "c_sys (c\<lparr>c_pending := x2\<rparr>) = c_sys c"
  "c_sys (c\<lparr>c_returned := x3\<rparr>) = c_sys c"
  "c_sys (c\<lparr>c_writer := x4\<rparr>) = c_sys c"
  "c_sys (c\<lparr>c_flow := x5\<rparr>) = c_sys c"
  "c_sys (c\<lparr>c_reg := x6\<rparr>) = c_sys c"
  "c_sys (c\<lparr>c_verd := x7\<rparr>) = c_sys c"
  "c_sys (c\<lparr>c_acked := x8\<rparr>) = c_sys c"
  "c_sys (observe cid f c) = c_sys c"
  by (simp_all add: c_sys_def set_sys_def observe_def)

lemma set_sys_simps [simp]:
  "previous (c_h (set_sys s c)) = previous (c_h c)"
  "c_hflow (set_sys s c) = c_hflow c"
  "c_pending (set_sys s c) = c_pending c"
  "c_returned (set_sys s c) = c_returned c"
  "c_writer (set_sys s c) = c_writer c"
  "c_flow (set_sys s c) = c_flow c"
  "c_reg (set_sys s c) = c_reg c"
  "c_verd (set_sys s c) = c_verd c"
  "c_acked (set_sys s c) = c_acked c"
  by (simp_all add: set_sys_def)

lemma observe_simps [simp]:
  "c_h (observe cid f c) = c_h c"
  "c_hflow (observe cid f c) = c_hflow c"
  "c_pending (observe cid f c) = c_pending c"
  "c_returned (observe cid f c) = c_returned c"
  "c_writer (observe cid f c) = c_writer c"
  "c_flow (observe cid f c) = c_flow c"
  "c_acked (observe cid f c) = c_acked c"
  by (simp_all add: observe_def)

lemma observe_reg:
  "c_reg (observe cid f c) =
     c_reg c @ drop (length (received_q f cid)) (received_q (forwarder (c_sys c)) cid)"
  by (simp add: observe_def)

lemma observe_verd:
  "c_verd (observe cid f c) =
     c_verd c @ drop (length (success_q f cid)) (success_q (forwarder (c_sys c)) cid) @
       drop (length (failure_q f cid)) (failure_q (forwarder (c_sys c)) cid)"
  by (simp add: observe_def)

lemma q_conn_at:
  "conn_at f cid qs qf qc \<Longrightarrow>
   received_q f cid = items (queues f qc) \<and> success_q f cid = items (queues f qs) \<and>
   failure_q f cid = items (queues f qf)"
  by (simp add: conn_at_def received_q_def success_q_def failure_q_def)

lemma q_gone:
  "conn_gone f cid \<Longrightarrow> received_q f cid = [] \<and> success_q f cid = [] \<and> failure_q f cid = []"
  by (simp add: conn_gone_def received_q_def success_q_def failure_q_def)

lemma conn_gone_RemoveAll: "conn_gone (RemoveAll f) cid"
  by (simp add: conn_gone_def RemoveAll_def)

lemma conn_write_keeps:
  "forwarder (snd (conn_write b s)) = forwarder s \<and>
   (faults s = [] \<longrightarrow> faults (snd (conn_write b s)) = []) \<and>
   prefix (wire s) (wire (snd (conn_write b s)))"
  by (simp add: conn_write_def split: list.splits)

lemma protocol_error_keeps:
  "forwarder (protocol_error ctx s) = forwarder s \<and> faults (protocol_error ctx s) = faults s \<and>
   wire (protocol_error ctx s) = wire s"
  by (simp add: protocol_error_def)

lemma PoolGet_keeps:
  "forwarder (snd (PoolGet s)) = forwarder s \<and> faults (snd (PoolGet s)) = faults s \<and>
   wire (snd (PoolGet s)) = wire s \<and> rawMessagesQueue (snd (PoolGet s)) = rawMessagesQueue s"
  by (simp add: PoolGet_def split: list.splits)

lemma handle_frame_cases:
  assumes a: "handle_frame ctx h tok = (fl, h')"
  shows "previous h \<le> previous h' \<and> (faults (st h) = [] \<longrightarrow> faults (st h') = []) \<and>
         prefix (wire (st h)) (wire (st h')) \<and>
         (forwarder (st h') = forwarder (st h) \<or>
          previous h < previous h' \<and>
            forwarder (st h') = Received (forwarder (st h)) (ctx_connID ctx) (previous h') \<or>
          previous h < previous h' \<and>
            forwarder (st h') =
              ForwardSucc (Received (forwarder (st h)) (ctx_connID ctx) (previous h'))
                (ctx_connID ctx) (previous h'))"
proof -
  define splits where "splits = SplitN tok sp 4"
  define txnr where "txnr = fst (Atoi (splits ! 0))"
  define datalen where "datalen = fst (Atoi (splits ! 2))"
  define data where "data = (if datalen \<noteq> 0 then Trim (splits ! 3) blanks else [])"
  define s1 where "s1 = (st h)\<lparr>forwarder := Received (forwarder (st h)) (ctx_connID ctx) txnr\<rparr>"
  note d = splits_def[symmetric] txnr_def[symmetric] datalen_def[symmetric] data_def[symmetric]
  note w1 = conn_write_keeps[of "open_reply txnr data" "st h"]
  note w2 = conn_write_keeps[of "close_reply txnr" "st h"]
  note pg = PoolGet_keeps[of s1]
  have s1f: "forwarder s1 = Received (forwarder (st h)) (ctx_connID ctx) txnr"
    "faults s1 = faults (st h)" "wire s1 = wire (st h)"
    by (simp_all add: s1_def)
  show ?thesis
  proof (cases "txnr \<le> previous h")
    case True
    then show ?thesis using a
      by (auto simp add: handle_frame_def Let_def d protocol_error_keeps)
  next
    case lt: False
    show ?thesis
    proof (cases "length splits < 3")
      case True
      then show ?thesis using a lt
        by (auto simp add: handle_frame_def Let_def d)
    next
      case l3: False
      show ?thesis
      proof (cases "datalen \<noteq> 0 \<and> length splits \<noteq> 4")
        case True
        then show ?thesis using a lt l3
          by (auto simp add: handle_frame_def Let_def d protocol_error_keeps)
      next
        case ok: False
        consider (op) "splits ! 1 = ''open''" | (cl) "splits ! 1 = ''close''"
          | (sy) "splits ! 1 = ''syslog''"
          | (un) "splits ! 1 \<noteq> ''open''" "splits ! 1 \<noteq> ''close''" "splits ! 1 \<noteq> ''syslog''"
          by blast
        then show ?thesis
        proof cases
          case op
          then show ?thesis using a lt l3 ok w1
            by (auto simp add: handle_frame_def Let_def d protocol_error_keeps split: if_splits)
        next
          case cl
          then show ?thesis using a lt l3 ok w2
            by (auto simp add: handle_frame_def Let_def d protocol_error_keeps split: if_splits)
        next
          case un
          then show ?thesis using a lt l3 ok
            by (auto simp add: handle_frame_def Let_def d protocol_error_keeps)
        next
          case sy
          show ?thesis
          proof (cases "relpIsOpen h")
            case False
            then show ?thesis using a lt l3 ok sy
              by (auto simp add: handle_frame_def Let_def d protocol_error_keeps)
          next
            case True
            show ?thesis
            proof (cases "length data = 0")
              case e: True
              then show ?thesis using a lt l3 ok sy True
                by (auto simp add: handle_frame_def Let_def d)
            next
              case ne: False
              then show ?thesis using a lt l3 ok sy True pg
                by (auto simp add: handle_frame_def Let_def d s1_def[symmetric] s1f
                    split: option.splits blocking.splits prod.splits)
            qed
          qed
        qed
      qed
    qed
  qed
qed

lemma safe_invE:
  assumes "safe_inv cid c"
  obtains acks where "c_acked c = map ack_frame acks" and "prefix (map fst acks) (c_reg c)"
    and "conn_gone (forwarder (c_sys c)) cid \<or>
         (\<exists>qs qf qc. conn_at (forwarder (c_sys c)) cid qs qf qc \<and>
            map fst acks @ items (queues (forwarder (c_sys c)) qc) = c_reg c)"
    and "sorted_wrt (<) (c_reg c)" and "- 1 \<le> previous (c_h c)"
    and "\<forall>r \<in> set (c_reg c). - 1 < r \<and> r \<le> previous (c_h c)"
proof -
  from assms obtain acks where a: "c_acked c = map ack_frame acks"
    and d: "conn_gone (forwarder (c_sys c)) cid \<and> prefix (map fst acks) (c_reg c) \<or>
         (\<exists>qs qf qc. conn_at (forwarder (c_sys c)) cid qs qf qc \<and>
            map fst acks @ items (queues (forwarder (c_sys c)) qc) = c_reg c)"
    and s: "sorted_wrt (<) (c_reg c)" "- 1 \<le> previous (c_h c)"
      "\<forall>r \<in> set (c_reg c). - 1 < r \<and> r \<le> previous (c_h c)"
    unfolding safe_inv_def by blast
  from d have p: "prefix (map fst acks) (c_reg c)"
    by (metis prefixI)
  from d have d': "conn_gone (forwarder (c_sys c)) cid \<or>
         (\<exists>qs qf qc. conn_at (forwarder (c_sys c)) cid qs qf qc \<and>
            map fst acks @ items (queues (forwarder (c_sys c)) qc) = c_reg c)"
    by blast
  show thesis by (rule that[OF a p d' s])
qed

lemma safe_invI_gone:
  assumes "c_acked c = map ack_frame acks" and "prefix (map fst acks) (c_reg c)"
    and "conn_gone (forwarder (c_sys c)) cid"
    and "sorted_wrt (<) (c_reg c)" and "- 1 \<le> previous (c_h c)"
    and "\<forall>r \<in> set (c_reg c). - 1 < r \<and> r \<le> previous (c_h c)"
  shows "safe_inv cid c"
  unfolding safe_inv_def using assms by blast

lemma safe_invI_at:
  assumes "c_acked c = map ack_frame acks"
    and "conn_at (forwarder (c_sys c)) cid qs qf qc"
    and "map fst acks @ items (queues (forwarder (c_sys c)) qc) = c_reg c"
    and "sorted_wrt (<) (c_reg c)" and "- 1 \<le> previous (c_h c)"
    and "\<forall>r \<in> set (c_reg c). - 1 < r \<and> r \<le> previous (c_h c)"
  shows "safe_inv cid c"
  unfolding safe_inv_def using assms by blast

lemma safe_inv_eq:
  assumes "safe_inv cid c" and "c_reg c' = c_reg c" and "c_acked c' = c_acked c"
    and "forwarder (c_sys c') = forwarder (c_sys c)" and "previous (c_h c) \<le> previous (c_h c')"
  shows "safe_inv cid c'"
proof -
  from assms(1) obtain acks where a: "c_acked c = map ack_frame acks"
    and p: "prefix (map fst acks) (c_reg c)"
    and d: "conn_gone (forwarder (c_sys c)) cid \<or>
         (\<exists>qs qf qc. conn_at (forwarder (c_sys c)) cid qs qf qc \<and>
            map fst acks @ items (queues (forwarder (c_sys c)) qc) = c_reg c)"
    and s: "sorted_wrt (<) (c_reg c)" and b: "- 1 \<le> previous (c_h c)"
    and r: "\<forall>r \<in> set (c_reg c). - 1 < r \<and> r \<le> previous (c_h c)"
    by (rule safe_invE)
  have s': "sorted_wrt (<) (c_reg c')" and b': "- 1 \<le> previous (c_h c')"
    and r': "\<forall>r \<in> set (c_reg c'). - 1 < r \<and> r \<le> previous (c_h c')"
    and a': "c_acked c' = map ack_frame acks" and p': "prefix (map fst acks) (c_reg c')"
    using s b r a p assms(2,3,5) by auto
  from d show ?thesis
  proof
    assume "conn_gone (forwarder (c_sys c)) cid"
    then have "conn_gone (forwarder (c_sys c')) cid" by (simp add: assms(4))
    from safe_invI_gone[OF a' p' this s' b' r'] show ?thesis .
  next
    assume "\<exists>qs qf qc. conn_at (forwarder (c_sys c)) cid qs qf qc \<and>
            map fst acks @ items (queues (forwarder (c_sys c)) qc) = c_reg c"
    then obtain qs qf qc where
      "conn_at (forwarder (c_sys c')) cid qs qf qc"
      "map fst acks @ items (queues (forwarder (c_sys c')) qc) = c_reg c'"
      by (auto simp add: assms(2,4))
    from safe_invI_at[OF a' this s' b' r'] show ?thesis .
  qed
qed

lemma safe_inv_gone:
  assumes "safe_inv cid c" and "c_reg c' = c_reg c" and "c_acked c' = c_acked c"
    and "conn_gone (forwarder (c_sys c')) cid" and "previous (c_h c) \<le> previous (c_h c')"
  shows "safe_inv cid c'"
proof -
  from assms(1) obtain acks where a: "c_acked c = map ack_frame acks"
    and p: "prefix (map fst acks) (c_reg c)"
    and s: "sorted_wrt (<) (c_reg c)" and b: "- 1 \<le> previous (c_h c)"
    and r: "\<forall>r \<in> set (c_reg c). - 1 < r \<and> r \<le> previous (c_h c)"
    by (rule safe_invE)
  have s': "sorted_wrt (<) (c_reg c')" and b': "- 1 \<le> previous (c_h c')"
    and r': "\<forall>r \<in> set (c_reg c'). - 1 < r \<and> r \<le> previous (c_h c')"
    and a': "c_acked c' = map ack_frame acks" and p': "prefix (map fst acks) (c_reg c')"
    using s b r a p assms(2,3,5) by auto
  from safe_invI_gone[OF a' p' assms(4) s' b' r'] show ?thesis .
qed


lemma conn_at_unique:
  "conn_at f cid qs qf qc \<Longrightarrow> conn_at f cid qs' qf' qc' \<Longrightarrow> qs' = qs \<and> qf' = qf \<and> qc' = qc"
  by (simp add: conn_at_def)

lemma conn_at_not_gone: "conn_at f cid qs qf qc \<Longrightarrow> \<not> conn_gone f cid"
  by (simp add: conn_at_def conn_gone_def)

lemma safe_inv_at:
  assumes "safe_inv cid c" and "conn_at (forwarder (c_sys c)) cid qs qf qc"
  obtains acks where "c_acked c = map ack_frame acks"
    and "map fst acks @ items (queues (forwarder (c_sys c)) qc) = c_reg c"
    and "sorted_wrt (<) (c_reg c)" and "- 1 \<le> previous (c_h c)"
    and "\<forall>r \<in> set (c_reg c). - 1 < r \<and> r \<le> previous (c_h c)"
proof -
  from assms(1) obtain acks where a: "c_acked c = map ack_frame acks"
    and d: "conn_gone (forwarder (c_sys c)) cid \<or>
         (\<exists>qs qf qc. conn_at (forwarder (c_sys c)) cid qs qf qc \<and>
            map fst acks @ items (queues (forwarder (c_sys c)) qc) = c_reg c)"
    and s: "sorted_wrt (<) (c_reg c)" "- 1 \<le> previous (c_h c)"
      "\<forall>r \<in> set (c_reg c). - 1 < r \<and> r \<le> previous (c_h c)"
    by (rule safe_invE)
  from d conn_at_not_gone[OF assms(2)] obtain qs' qf' qc' where
    x: "conn_at (forwarder (c_sys c)) cid qs' qf' qc'"
    and y: "map fst acks @ items (queues (forwarder (c_sys c)) qc') = c_reg c" by blast
  from conn_at_unique[OF assms(2) x] y
  have "map fst acks @ items (queues (forwarder (c_sys c)) qc) = c_reg c" by simp
  from that[OF a this s] show thesis .
qed

lemma safe_inv_mode:
  "safe_inv cid c \<Longrightarrow>
   conn_gone (forwarder (c_sys c)) cid \<or> (\<exists>qs qf qc. conn_at (forwarder (c_sys c)) cid qs qf qc)"
  unfolding safe_inv_def by blast

lemma safe_register:
  assumes i: "safe_inv cid c" and at: "conn_at (forwarder (c_sys c)) cid qs qf qc"
    and a': "c_acked c' = c_acked c" and r': "c_reg c' = c_reg c @ [t]"
    and lt: "previous (c_h c) < t" and p': "previous (c_h c') = t"
    and at': "conn_at (forwarder (c_sys c')) cid qs qf qc"
    and q': "items (queues (forwarder (c_sys c')) qc) = items (queues (forwarder (c_sys c)) qc) @ [t]"
  shows "safe_inv cid c'"
proof -
  from i at obtain acks where a: "c_acked c = map ack_frame acks"
    and e: "map fst acks @ items (queues (forwarder (c_sys c)) qc) = c_reg c"
    and s: "sorted_wrt (<) (c_reg c)" and b: "- 1 \<le> previous (c_h c)"
    and r: "\<forall>r \<in> set (c_reg c). - 1 < r \<and> r \<le> previous (c_h c)"
    by (rule safe_inv_at)
  have 1: "c_acked c' = map ack_frame acks" using a a' by simp
  have 2: "map fst acks @ items (queues (forwarder (c_sys c')) qc) = c_reg c'"
    using e q' r' by simp
  have 3: "sorted_wrt (<) (c_reg c')"
    using s r lt unfolding r' by (auto simp add: sorted_wrt_append)
  have 4: "- 1 \<le> previous (c_h c')" using b lt p' by simp
  have 5: "\<forall>r \<in> set (c_reg c'). - 1 < r \<and> r \<le> previous (c_h c')"
    using r b lt unfolding r' p' by auto
  from safe_invI_at[OF 1 at' 2 3 4 5] show ?thesis .
qed

lemma safe_step_frame:
  assumes i: "safe_inv cid c" and cid: "ctx_connID ctx = cid"
  shows "safe_inv cid (conn_step ctx (EvFrame tok) c)"
proof (cases "c_hflow c \<noteq> Next \<or> c_returned c")
  case True
  then show ?thesis using i by auto
next
  case False
  obtain fl h' where hf: "handle_frame ctx (c_h c) tok = (fl, h')"
    by (cases "handle_frame ctx (c_h c) tok") auto
  let ?f = "forwarder (c_sys c)"
  let ?c' = "observe cid ?f (c\<lparr>c_h := h', c_hflow := fl,
                     c_pending := (if fl = Waits then Some (build_raw ctx (c_sys c) tok)
                                   else None)\<rparr>)"
  have st: "conn_step ctx (EvFrame tok) c = ?c'" using False hf cid by simp
  note k = handle_frame_cases[OF hf, unfolded cid c_sys_def[symmetric]]
  have pl: "previous (c_h c) \<le> previous h'" using k by simp
  have fw: "forwarder (c_sys ?c') = forwarder (st h')" by simp
  have ak: "c_acked ?c' = c_acked c" by simp
  have ph: "previous (c_h ?c') = previous h'" by simp
  have rg: "c_reg ?c' = c_reg c @ drop (length (received_q ?f cid)) (received_q (forwarder (st h')) cid)"
    by (simp add: observe_reg)
  note d = safe_inv_mode[OF i]
  from d show ?thesis
  proof
    assume g: "conn_gone ?f cid"
    from k conn_gone_ops[OF g] have same: "forwarder (st h') = ?f" by auto
    have "c_reg ?c' = c_reg c" unfolding rg same by simp
    from safe_inv_eq[OF i this ak] show ?thesis unfolding st using same pl by simp
  next
    assume "\<exists>qs qf qc. conn_at ?f cid qs qf qc"
    then obtain qs qf qc where at: "conn_at ?f cid qs qf qc" by blast
    note q = q_conn_at[OF at]
    from k consider (same) "forwarder (st h') = ?f"
      | (rcv) "previous (c_h c) < previous h'" "forwarder (st h') = Received ?f cid (previous h')"
      | (both) "previous (c_h c) < previous h'"
          "forwarder (st h') = ForwardSucc (Received ?f cid (previous h')) cid (previous h')"
      by blast
    then show ?thesis
    proof cases
      case same
      have "c_reg ?c' = c_reg c" unfolding rg same by simp
      from safe_inv_eq[OF i this ak] show ?thesis unfolding st using same pl by simp
    next
      case rcv
      note R = conn_at_Received[OF at, of "previous h'"]
      have at': "conn_at (forwarder (c_sys ?c')) cid qs qf qc" using R rcv(2) by simp
      have q': "items (queues (forwarder (c_sys ?c')) qc) = items (queues ?f qc) @ [previous h']"
        using R rcv(2) by simp
      have r': "c_reg ?c' = c_reg c @ [previous h']"
        unfolding rg using q q_conn_at[OF at'[unfolded fw]] q'[unfolded fw] by simp
      from safe_register[OF i at ak r' rcv(1) ph at' q'] show ?thesis unfolding st .
    next
      case both
      note R = conn_at_Received[OF at, of "previous h'"]
      then have at1: "conn_at (Received ?f cid (previous h')) cid qs qf qc" by simp
      note S = conn_at_ForwardSucc[OF at1, of "previous h'"]
      have at': "conn_at (forwarder (c_sys ?c')) cid qs qf qc" using S both(2) by simp
      have q': "items (queues (forwarder (c_sys ?c')) qc) = items (queues ?f qc) @ [previous h']"
        using R S both(2) by simp
      have r': "c_reg ?c' = c_reg c @ [previous h']"
        unfolding rg using q q_conn_at[OF at'[unfolded fw]] q'[unfolded fw] by simp
      from safe_register[OF i at ak r' both(1) ph at' q'] show ?thesis unfolding st .
    qed
  qed
qed

lemma safe_step_verdict:
  assumes i: "safe_inv cid c" and cid: "ctx_connID ctx = cid"
  shows "safe_inv cid (conn_step ctx (EvSucc t) c) \<and> safe_inv cid (conn_step ctx (EvFail t) c)"
proof -
  let ?f = "forwarder (c_sys c)"
  note d = safe_inv_mode[OF i]
  from d show ?thesis
  proof
    assume g: "conn_gone ?f cid"
    note o = conn_gone_ops[OF g, of t]
    have "safe_inv cid (conn_step ctx (EvSucc t) c)"
      by (rule safe_inv_eq[OF i]) (simp_all add: cid o observe_reg)
    moreover have "safe_inv cid (conn_step ctx (EvFail t) c)"
      by (rule safe_inv_eq[OF i]) (simp_all add: cid o observe_reg)
    ultimately show ?thesis ..
  next
    assume "\<exists>qs qf qc. conn_at ?f cid qs qf qc"
    then obtain qs qf qc where at: "conn_at ?f cid qs qf qc" by blast
    from i at obtain acks where a: "c_acked c = map ack_frame acks"
      and e: "map fst acks @ items (queues ?f qc) = c_reg c"
      and s: "sorted_wrt (<) (c_reg c)" and b: "- 1 \<le> previous (c_h c)"
      and r: "\<forall>r \<in> set (c_reg c). - 1 < r \<and> r \<le> previous (c_h c)"
      by (rule safe_inv_at)
    note q = q_conn_at[OF at]
    note S = conn_at_ForwardSucc[OF at, of t] and F = conn_at_ForwardFail[OF at, of t]
    have cs: "conn_at (ForwardSucc ?f cid t) cid qs qf qc" using S by simp
    have cf: "conn_at (ForwardFail ?f cid t) cid qs qf qc" using F by simp
    have "safe_inv cid (conn_step ctx (EvSucc t) c)"
      apply (rule safe_invI_at[where acks = acks and qs = qs and qf = qf and qc = qc])
      using a e s b r S q q_conn_at[OF cs] by (simp_all add: cid observe_reg)
    moreover have "safe_inv cid (conn_step ctx (EvFail t) c)"
      apply (rule safe_invI_at[where acks = acks and qs = qs and qf = qf and qc = qc])
      using a e s b r F q q_conn_at[OF cf] by (simp_all add: cid observe_reg)
    ultimately show ?thesis ..
  qed
qed


lemma writer_pass_gone:
  "conn_gone (forwarder s) cid \<Longrightarrow> writer_pass cid cl w s = (Exit, w, s)"
  by (simp add: writer_pass_def conn_gone_ops)

lemma retry_put_keeps:
  "forwarder (snd (retry_put ctx r s)) = forwarder s \<and> wire (snd (retry_put ctx r s)) = wire s \<and>
   faults (snd (retry_put ctx r s)) = faults s"
  by (simp add: retry_put_def split: option.splits blocking.splits prod.splits)

lemma handler_exit_keeps:
  "forwarder (handler_exit ctx s) = RemoveConn (forwarder s) (ctx_connID ctx) \<and>
   wire (handler_exit ctx s) = wire s \<and> faults (handler_exit ctx s) = faults s"
  by (simp add: handler_exit_def)

lemma safe_step_writer:
  assumes i: "safe_inv cid c" and cid: "ctx_connID ctx = cid"
  shows "safe_inv cid (conn_step ctx EvWriter c) \<and>
         (\<exists>x. wire (c_sys (conn_step ctx EvWriter c)) = wire (c_sys c) @ x \<and>
              c_acked (conn_step ctx EvWriter c) = c_acked c @ x)"
proof (cases "c_flow c = Exit")
  case True
  then show ?thesis using i by simp
next
  case False
  let ?cl = "ctx_client ctx"
  obtain fl w s where e: "writer_pass cid ?cl (c_writer c) (c_sys c) = (fl, w, s)"
    by (cases "writer_pass cid ?cl (c_writer c) (c_sys c)") auto
  let ?c' = "(set_sys (if fl = Exit then s\<lparr>wg := wg s - 1\<rparr> else s) c)
                  \<lparr>c_writer := w, c_flow := fl,
                   c_acked := c_acked c @ drop (length (wire (c_sys c))) (wire s)\<rparr>"
  have st: "conn_step ctx EvWriter c = ?c'" using False e cid by simp
  have fw: "forwarder (c_sys ?c') = forwarder s" and wr: "wire (c_sys ?c') = wire s"
    by simp_all
  have rg: "c_reg ?c' = c_reg c" and ph: "previous (c_h ?c') = previous (c_h c)" by simp_all
  have ak: "c_acked ?c' = c_acked c @ drop (length (wire (c_sys c))) (wire s)" by simp
  from safe_inv_mode[OF i] show ?thesis
  proof
    assume g: "conn_gone (forwarder (c_sys c)) cid"
    from writer_pass_gone[OF g, of ?cl "c_writer c"] e have s: "s = c_sys c" by simp
    have "safe_inv cid ?c'"
      by (rule safe_inv_eq[OF i]) (simp_all add: s)
    then show ?thesis unfolding st by (simp add: s)
  next
    assume "\<exists>qs qf qc. conn_at (forwarder (c_sys c)) cid qs qf qc"
    then obtain qs qf qc where at: "conn_at (forwarder (c_sys c)) cid qs qf qc" by blast
    from i at obtain acks where a: "c_acked c = map ack_frame acks"
      and q: "map fst acks @ items (queues (forwarder (c_sys c)) qc) = c_reg c"
      and so: "sorted_wrt (<) (c_reg c)" and b: "- 1 \<le> previous (c_h c)"
      and r: "\<forall>r \<in> set (c_reg c). - 1 < r \<and> r \<le> previous (c_h c)"
      by (rule safe_inv_at)
    from writer_pass_passed[OF at, of "c_writer c" ?cl] obtain acks1 where
      p: "passed cid qs qf qc (c_writer c) (c_sys c) acks1 (fl, w, s)" unfolding e by blast
    note pd = passed_D[OF p]
    have w': "wire s = wire (c_sys c) @ map ack_frame acks1"
      by (rule conjunct1[OF conjunct2[OF pd]])
    have at2: "conn_at (forwarder s) cid qs qf qc" by (rule conjunct1[OF pd])
    have it2: "items (queues (forwarder (c_sys c)) qc) = map fst acks1 @ items (queues (forwarder s) qc)"
      by (rule conjunct2[OF conjunct2[OF pd]])
    have 1: "c_acked ?c' = map ack_frame (acks @ acks1)" unfolding ak w' using a by simp
    have 2: "conn_at (forwarder (c_sys ?c')) cid qs qf qc" unfolding fw by (rule at2)
    have 3: "map fst (acks @ acks1) @ items (queues (forwarder (c_sys ?c')) qc) = c_reg ?c'"
      unfolding fw rg using it2 q by simp
    have "safe_inv cid ?c'"
      by (rule safe_invI_at[OF 1 2 3]) (simp_all add: so b r)
    moreover have "wire (c_sys ?c') = wire (c_sys c) @ map ack_frame acks1 \<and>
                   c_acked ?c' = c_acked c @ map ack_frame acks1"
      by (simp add: w')
    ultimately show ?thesis unfolding st by blast
  qed
qed

lemma safe_step_other:
  assumes i: "safe_inv cid c" and cid: "ctx_connID ctx = cid"
  shows "safe_inv cid (conn_step ctx EvReturn c)" and "safe_inv cid (conn_step ctx EvRemoveAll c)"
    and "safe_inv cid (conn_step ctx EvGet c)" and "safe_inv cid (conn_step ctx EvUnblock c)"
proof -
  show "safe_inv cid (conn_step ctx EvReturn c)"
  proof (cases "c_hflow c = Waits \<or> c_returned c")
    case True
    then show ?thesis using i by auto
  next
    case False
    show ?thesis
      apply (rule safe_inv_gone[OF i])
      using False apply (simp_all add: handler_exit_keeps cid[symmetric] conn_gone_RemoveConn)
      done
  qed
  show "safe_inv cid (conn_step ctx EvRemoveAll c)"
    by (rule safe_inv_gone[OF i]) (simp_all add: conn_gone_RemoveAll)
  show "safe_inv cid (conn_step ctx EvGet c)"
    by (rule safe_inv_eq[OF i])
      (simp_all split: option.splits blocking.splits prod.splits)
  show "safe_inv cid (conn_step ctx EvUnblock c)"
  proof (cases "c_pending c")
    case None
    then show ?thesis using i by simp
  next
    case (Some raw)
    obtain fl s' where e: "retry_put ctx raw (c_sys c) = (fl, s')"
      by (cases "retry_put ctx raw (c_sys c)") auto
    from retry_put_keeps[of ctx raw "c_sys c"] e have k: "forwarder s' = forwarder (c_sys c)"
      by simp
    show ?thesis
      by (rule safe_inv_eq[OF i]) (simp_all add: Some e k)
  qed
qed

lemma step_wire:
  assumes i: "safe_inv cid c" and cid: "ctx_connID ctx = cid"
  shows "\<exists>x y. wire (c_sys (conn_step ctx ev c)) = wire (c_sys c) @ x \<and>
               c_acked (conn_step ctx ev c) = c_acked c @ y \<and> subseq y x"
proof (cases ev)
  case (EvFrame tok)
  show ?thesis
  proof (cases "c_hflow c \<noteq> Next \<or> c_returned c")
    case True
    then show ?thesis unfolding EvFrame by auto
  next
    case False
    obtain fl h' where hf: "handle_frame ctx (c_h c) tok = (fl, h')"
      by (cases "handle_frame ctx (c_h c) tok") auto
    from handle_frame_cases[OF hf] have "prefix (wire (c_sys c)) (wire (st h'))"
      by (simp add: c_sys_def)
    then obtain x where "wire (st h') = wire (c_sys c) @ x" by (auto simp: prefix_def)
    then show ?thesis unfolding EvFrame using False hf by auto
  qed
next
  case EvUnblock
  show ?thesis
  proof (cases "c_pending c")
    case None
    then show ?thesis unfolding EvUnblock by simp
  next
    case (Some raw)
    obtain fl s' where e: "retry_put ctx raw (c_sys c) = (fl, s')"
      by (cases "retry_put ctx raw (c_sys c)") auto
    from retry_put_keeps[of ctx raw "c_sys c"] e have k: "wire s' = wire (c_sys c)"
      by simp
    show ?thesis unfolding EvUnblock by (simp add: Some e k)
  qed
next
  case EvReturn
  show ?thesis unfolding EvReturn by (simp add: handler_exit_keeps)
next
  case EvGet
  show ?thesis unfolding EvGet by (simp split: option.splits blocking.splits prod.splits)
next
  case (EvSucc t)
  show ?thesis unfolding EvSucc by simp
next
  case (EvFail t)
  show ?thesis unfolding EvFail by simp
next
  case EvWriter
  from safe_step_writer[OF i cid] obtain x where
    "wire (c_sys (conn_step ctx EvWriter c)) = wire (c_sys c) @ x"
    "c_acked (conn_step ctx EvWriter c) = c_acked c @ x" by blast
  then show ?thesis unfolding EvWriter by blast
next
  case EvRemoveAll
  show ?thesis unfolding EvRemoveAll by simp
qed

lemma safe_step:
  assumes i: "safe_inv cid c" and cid: "ctx_connID ctx = cid" and w: "wire_inv w0 c"
  shows "safe_inv cid (conn_step ctx ev c) \<and> wire_inv w0 (conn_step ctx ev c)"
proof -
  have 1: "safe_inv cid (conn_step ctx ev c)"
    using safe_step_frame[OF i cid] safe_step_verdict[OF i cid] safe_step_writer[OF i cid]
      safe_step_other[OF i cid]
    by (cases ev) simp_all
  from step_wire[OF i cid, of ev] obtain x y where
    a: "wire (c_sys (conn_step ctx ev c)) = wire (c_sys c) @ x"
    and b: "c_acked (conn_step ctx ev c) = c_acked c @ y" and s: "subseq y x" by blast
  from w obtain u where u: "wire (c_sys c) = w0 @ u" and v: "subseq (c_acked c) u"
    unfolding wire_inv_def by blast
  have "wire (c_sys (conn_step ctx ev c)) = w0 @ (u @ x)" using a u by simp
  moreover have "subseq (c_acked (conn_step ctx ev c)) (u @ x)"
    unfolding b by (rule list_emb_append_mono[OF v s])
  ultimately have "wire_inv w0 (conn_step ctx ev c)" unfolding wire_inv_def by blast
  with 1 show ?thesis ..
qed

lemma conn_run_Cons: "conn_run ctx (ev # evs) c = conn_run ctx evs (conn_step ctx ev c)"
  by (simp add: conn_run_def)

lemma conn_run_append:
  "conn_run ctx (xs @ ys) c = conn_run ctx ys (conn_run ctx xs c)"
  by (simp add: conn_run_def)

lemma safe_run:
  "safe_inv cid c \<Longrightarrow> ctx_connID ctx = cid \<Longrightarrow> wire_inv w0 c \<Longrightarrow>
   safe_inv cid (conn_run ctx evs c) \<and> wire_inv w0 (conn_run ctx evs c)"
proof (induction evs arbitrary: c)
  case Nil
  then show ?case by (simp add: conn_run_def)
next
  case (Cons ev evs)
  from safe_step[OF Cons.prems, of ev] Cons.IH[OF _ Cons.prems(2)] show ?case
    unfolding conn_run_Cons by blast
qed

lemma conn_start_ctx: "ctx_connID (fst (conn_start ctx s)) = fst (AddConn (forwarder s))"
  by (simp add: conn_start_def handler_start_def Let_def split: prod.splits)

lemma conn_start_sys:
  "c_sys (snd (conn_start ctx s)) = s\<lparr>forwarder := snd (AddConn (forwarder s)), wg := wg s + 1\<rparr>"
  by (simp add: conn_start_def handler_start_def c_sys_def Let_def split: prod.splits)

lemma conn_start_fields:
  "c_reg (snd (conn_start ctx s)) = []" "c_verd (snd (conn_start ctx s)) = []"
  "c_acked (snd (conn_start ctx s)) = []" "c_flow (snd (conn_start ctx s)) = Next"
  "c_writer (snd (conn_start ctx s)) = new_writer" "\<not> c_returned (snd (conn_start ctx s))"
  "previous (c_h (snd (conn_start ctx s))) = - 1"
  by (simp_all add: conn_start_def handler_start_def Let_def split: prod.splits)

lemma safe_start:
  "safe_inv (ctx_connID (fst (conn_start ctx s))) (snd (conn_start ctx s)) \<and>
   wire_inv (wire s) (snd (conn_start ctx s))"
proof -
  let ?f = "forwarder s"
  note a = conn_at_AddConn[of ?f]
  have "safe_inv (ctx_connID (fst (conn_start ctx s))) (snd (conn_start ctx s))"
    apply (rule safe_invI_at[where acks = "[]" and qs = "nqueues ?f" and qf = "nqueues ?f + 1"
          and qc = "nqueues ?f + 2"])
    using a by (simp_all add: conn_start_ctx conn_start_sys conn_start_fields)
  moreover have "wire_inv (wire s) (snd (conn_start ctx s))"
    by (simp add: wire_inv_def conn_start_sys conn_start_fields)
  ultimately show ?thesis ..
qed

lemma linvI:
  assumes "conn_at f cid qs qf qc"
    and "map fst acks @ items (queues f qc) = R"
    and "sorted_wrt (<) R" and "\<forall>r \<in> set R. - 1 < r" and "set V \<subseteq> set R" and "distinct V"
    and "length (items (queues f qs)) + length (items (queues f qf)) \<le> length V"
    and "\<forall>t \<in> set V. t \<in> fst ` set acks \<or> t \<in> set (items (queues f qs)) \<or>
             t \<in> set (items (queues f qf)) \<or> lookup (successes w) t \<or> lookup (failures w) t"
    and "\<forall>t. t \<in> set (items (queues f qs)) \<or> t \<in> set (items (queues f qf)) \<or>
             lookup (successes w) t \<or> lookup (failures w) t \<longrightarrow> t \<in> set V"
    and "case items (queues f qc) of
           [] \<Rightarrow> True
         | x # xs \<Rightarrow> \<not> lookup (successes w) x \<and> \<not> lookup (failures w) x"
  shows "linv cid f w acks R V"
  unfolding linv_def
  apply (rule exI[of _ qs], rule exI[of _ qf], rule exI[of _ qc])
  apply (intro conjI)
  apply (rule assms)+
  done

lemma linvE:
  assumes "linv cid f w acks R V"
  obtains qs qf qc where "conn_at f cid qs qf qc"
    and "map fst acks @ items (queues f qc) = R"
    and "sorted_wrt (<) R" and "\<forall>r \<in> set R. - 1 < r" and "set V \<subseteq> set R" and "distinct V"
    and "length (items (queues f qs)) + length (items (queues f qf)) \<le> length V"
    and "\<forall>t \<in> set V. t \<in> fst ` set acks \<or> t \<in> set (items (queues f qs)) \<or>
             t \<in> set (items (queues f qf)) \<or> lookup (successes w) t \<or> lookup (failures w) t"
    and "\<forall>t. t \<in> set (items (queues f qs)) \<or> t \<in> set (items (queues f qf)) \<or>
             lookup (successes w) t \<or> lookup (failures w) t \<longrightarrow> t \<in> set V"
    and "case items (queues f qc) of
           [] \<Rightarrow> True
         | x # xs \<Rightarrow> \<not> lookup (successes w) x \<and> \<not> lookup (failures w) x"
  using assms unfolding linv_def by (elim exE conjE) (rule that)

lemma linv_received:
  assumes l: "linv cid f w acks R V" and p: "- 1 < t" and g: "\<forall>r \<in> set R. r < t"
  shows "linv cid (Received f cid t) w acks (R @ [t]) V"
proof -
  from l obtain qs qf qc where c: "conn_at f cid qs qf qc"
    and r: "map fst acks @ items (queues f qc) = R"
    and so: "sorted_wrt (<) R" and pos: "\<forall>r \<in> set R. - 1 < r" and vr: "set V \<subseteq> set R"
    and dv: "distinct V"
    and len: "length (items (queues f qs)) + length (items (queues f qf)) \<le> length V"
    and k2: "\<forall>t \<in> set V. t \<in> fst ` set acks \<or> t \<in> set (items (queues f qs)) \<or>
             t \<in> set (items (queues f qf)) \<or> lookup (successes w) t \<or> lookup (failures w) t"
    and k4: "\<forall>t. t \<in> set (items (queues f qs)) \<or> t \<in> set (items (queues f qf)) \<or>
             lookup (successes w) t \<or> lookup (failures w) t \<longrightarrow> t \<in> set V"
    and k3: "case items (queues f qc) of
           [] \<Rightarrow> True
         | x # xs \<Rightarrow> \<not> lookup (successes w) x \<and> \<not> lookup (failures w) x"
    by (rule linvE)
  let ?f = "Received f cid t"
  note R = conn_at_Received[OF c, of t]
  have tv: "t \<notin> set V" using vr g by auto
  then have tm: "\<not> lookup (successes w) t \<and> \<not> lookup (failures w) t" using k4 by blast
  show ?thesis
  proof (rule linvI[where qs = qs and qf = qf and qc = qc])
    show "conn_at ?f cid qs qf qc" using R by simp
    show "map fst acks @ items (queues ?f qc) = R @ [t]" using R r by simp
    show "sorted_wrt (<) (R @ [t])" using so g by (simp add: sorted_wrt_append)
    show "\<forall>r \<in> set (R @ [t]). - 1 < r" using pos p by simp
    show "set V \<subseteq> set (R @ [t])" using vr by auto
    show "distinct V" by (rule dv)
    show "length (items (queues ?f qs)) + length (items (queues ?f qf)) \<le> length V"
      using R len by simp
    show "\<forall>t \<in> set V. t \<in> fst ` set acks \<or> t \<in> set (items (queues ?f qs)) \<or>
             t \<in> set (items (queues ?f qf)) \<or> lookup (successes w) t \<or> lookup (failures w) t"
      using R k2 by simp
    show "\<forall>t. t \<in> set (items (queues ?f qs)) \<or> t \<in> set (items (queues ?f qf)) \<or>
             lookup (successes w) t \<or> lookup (failures w) t \<longrightarrow> t \<in> set V"
      using R k4 by simp
    show "case items (queues ?f qc) of
           [] \<Rightarrow> True
         | x # xs \<Rightarrow> \<not> lookup (successes w) x \<and> \<not> lookup (failures w) x"
      using R k3 tm by (cases "items (queues f qc)") simp_all
  qed
qed

lemma linv_succ:
  assumes l: "linv cid f w acks R V" and tr: "t \<in> set R" and tv: "t \<notin> set V"
  shows "linv cid (ForwardSucc f cid t) w acks R (V @ [t])"
proof -
  from l obtain qs qf qc where c: "conn_at f cid qs qf qc"
    and r: "map fst acks @ items (queues f qc) = R"
    and so: "sorted_wrt (<) R" and pos: "\<forall>r \<in> set R. - 1 < r" and vr: "set V \<subseteq> set R"
    and dv: "distinct V"
    and len: "length (items (queues f qs)) + length (items (queues f qf)) \<le> length V"
    and k2: "\<forall>t \<in> set V. t \<in> fst ` set acks \<or> t \<in> set (items (queues f qs)) \<or>
             t \<in> set (items (queues f qf)) \<or> lookup (successes w) t \<or> lookup (failures w) t"
    and k4: "\<forall>t. t \<in> set (items (queues f qs)) \<or> t \<in> set (items (queues f qf)) \<or>
             lookup (successes w) t \<or> lookup (failures w) t \<longrightarrow> t \<in> set V"
    and k3: "case items (queues f qc) of
           [] \<Rightarrow> True
         | x # xs \<Rightarrow> \<not> lookup (successes w) x \<and> \<not> lookup (failures w) x"
    by (rule linvE)
  let ?f = "ForwardSucc f cid t"
  note R = conn_at_ForwardSucc[OF c, of t]
  show ?thesis
  proof (rule linvI[where qs = qs and qf = qf and qc = qc])
    show "conn_at ?f cid qs qf qc" using R by simp
    show "map fst acks @ items (queues ?f qc) = R" using R r by simp
    show "sorted_wrt (<) R" by (rule so)
    show "\<forall>r \<in> set R. - 1 < r" by (rule pos)
    show "set (V @ [t]) \<subseteq> set R" using vr tr by simp
    show "distinct (V @ [t])" using dv tv by simp
    show "length (items (queues ?f qs)) + length (items (queues ?f qf)) \<le> length (V @ [t])"
      using R len by simp
    show "\<forall>u \<in> set (V @ [t]). u \<in> fst ` set acks \<or> u \<in> set (items (queues ?f qs)) \<or>
             u \<in> set (items (queues ?f qf)) \<or> lookup (successes w) u \<or> lookup (failures w) u"
      using R k2 by auto
    show "\<forall>u. u \<in> set (items (queues ?f qs)) \<or> u \<in> set (items (queues ?f qf)) \<or>
             lookup (successes w) u \<or> lookup (failures w) u \<longrightarrow> u \<in> set (V @ [t])"
      using R k4 by auto
    show "case items (queues ?f qc) of
           [] \<Rightarrow> True
         | x # xs \<Rightarrow> \<not> lookup (successes w) x \<and> \<not> lookup (failures w) x"
      using R k3 by (cases "items (queues f qc)") simp_all
  qed
qed

lemma linv_fail:
  assumes l: "linv cid f w acks R V" and tr: "t \<in> set R" and tv: "t \<notin> set V"
  shows "linv cid (ForwardFail f cid t) w acks R (V @ [t])"
proof -
  from l obtain qs qf qc where c: "conn_at f cid qs qf qc"
    and r: "map fst acks @ items (queues f qc) = R"
    and so: "sorted_wrt (<) R" and pos: "\<forall>r \<in> set R. - 1 < r" and vr: "set V \<subseteq> set R"
    and dv: "distinct V"
    and len: "length (items (queues f qs)) + length (items (queues f qf)) \<le> length V"
    and k2: "\<forall>t \<in> set V. t \<in> fst ` set acks \<or> t \<in> set (items (queues f qs)) \<or>
             t \<in> set (items (queues f qf)) \<or> lookup (successes w) t \<or> lookup (failures w) t"
    and k4: "\<forall>t. t \<in> set (items (queues f qs)) \<or> t \<in> set (items (queues f qf)) \<or>
             lookup (successes w) t \<or> lookup (failures w) t \<longrightarrow> t \<in> set V"
    and k3: "case items (queues f qc) of
           [] \<Rightarrow> True
         | x # xs \<Rightarrow> \<not> lookup (successes w) x \<and> \<not> lookup (failures w) x"
    by (rule linvE)
  let ?f = "ForwardFail f cid t"
  note R = conn_at_ForwardFail[OF c, of t]
  show ?thesis
  proof (rule linvI[where qs = qs and qf = qf and qc = qc])
    show "conn_at ?f cid qs qf qc" using R by simp
    show "map fst acks @ items (queues ?f qc) = R" using R r by simp
    show "sorted_wrt (<) R" by (rule so)
    show "\<forall>r \<in> set R. - 1 < r" by (rule pos)
    show "set (V @ [t]) \<subseteq> set R" using vr tr by simp
    show "distinct (V @ [t])" using dv tv by simp
    show "length (items (queues ?f qs)) + length (items (queues ?f qf)) \<le> length (V @ [t])"
      using R len by simp
    show "\<forall>u \<in> set (V @ [t]). u \<in> fst ` set acks \<or> u \<in> set (items (queues ?f qs)) \<or>
             u \<in> set (items (queues ?f qf)) \<or> lookup (successes w) u \<or> lookup (failures w) u"
      using R k2 by auto
    show "\<forall>u. u \<in> set (items (queues ?f qs)) \<or> u \<in> set (items (queues ?f qf)) \<or>
             lookup (successes w) u \<or> lookup (failures w) u \<longrightarrow> u \<in> set (V @ [t])"
      using R k4 by auto
    show "case items (queues ?f qc) of
           [] \<Rightarrow> True
         | x # xs \<Rightarrow> \<not> lookup (successes w) x \<and> \<not> lookup (failures w) x"
      using R k3 by (cases "items (queues f qc)") simp_all
  qed
qed


lemma pending_conn_at:
  "conn_at (forwarder s) cid qs qf qc \<Longrightarrow>
   pending cid s = length (items (queues (forwarder s) qs)) + length (items (queues (forwarder s) qf))"
  by (simp add: pending_def q_conn_at)

lemma linv_writer:
  assumes l: "linv cid (forwarder s) w acks R V" and nf: "faults s = []"
    and e: "writer_pass cid cl w s = (fl', w', s')"
  shows "\<exists>acks1. linv cid (forwarder s') w' (acks @ acks1) R V \<and>
           wire s' = wire s @ map ack_frame acks1 \<and> fl' \<noteq> Exit \<and> faults s' = [] \<and>
           pending cid s' \<le> pending cid s - 1"
proof -
  from l obtain qs qf qc where c: "conn_at (forwarder s) cid qs qf qc"
    and r: "map fst acks @ items (queues (forwarder s) qc) = R"
    and so: "sorted_wrt (<) R" and pos: "\<forall>r \<in> set R. - 1 < r" and vr: "set V \<subseteq> set R"
    and dv: "distinct V"
    and len: "length (items (queues (forwarder s) qs)) + length (items (queues (forwarder s) qf))
               \<le> length V"
    and k2: "\<forall>t \<in> set V. t \<in> fst ` set acks \<or> t \<in> set (items (queues (forwarder s) qs)) \<or>
             t \<in> set (items (queues (forwarder s) qf)) \<or> lookup (successes w) t \<or>
             lookup (failures w) t"
    and k4: "\<forall>t. t \<in> set (items (queues (forwarder s) qs)) \<or>
             t \<in> set (items (queues (forwarder s) qf)) \<or>
             lookup (successes w) t \<or> lookup (failures w) t \<longrightarrow> t \<in> set V"
    and k3: "case items (queues (forwarder s) qc) of
           [] \<Rightarrow> True
         | x # xs \<Rightarrow> \<not> lookup (successes w) x \<and> \<not> lookup (failures w) x"
    by (rule linvE)
  let ?S = "items (queues (forwarder s) qs)"
  let ?F = "items (queues (forwarder s) qf)"
  from writer_pass_passed[OF c, of w cl] obtain acks1 where
    p: "passed cid qs qf qc w s acks1 (fl', w', s')" unfolding e by blast
  note pd = passedD[OF p]
  have
    p1: "conn_at (forwarder s') cid qs qf qc"
    and p2: "wire s' = wire s @ map ack_frame acks1"
    and p3: "items (queues (forwarder s) qc) = map fst acks1 @ items (queues (forwarder s') qc)"
    and p4: "items (queues (forwarder s') qs) = tl ?S"
    and p5: "items (queues (forwarder s') qf) = tl ?F"
    and p6: "\<And>t. lookup (successes w') t \<Longrightarrow> lookup (successes w) t \<or> t \<in> set (take 1 ?S)"
    and p7: "\<And>t. lookup (failures w') t \<Longrightarrow> lookup (failures w) t \<or> t \<in> set (take 1 ?F)"
    and p8: "\<And>t. lookup (successes w) t \<or> (t \<in> set (take 1 ?S) \<and> t \<noteq> - 1) \<Longrightarrow>
              lookup (successes w') t \<or> t \<in> fst ` set acks1"
    and p9: "\<And>t. lookup (failures w) t \<or> (t \<in> set (take 1 ?F) \<and> t \<noteq> - 1) \<Longrightarrow>
              lookup (failures w') t \<or> t \<in> fst ` set acks1"
    using pd by blast+
  from writer_pass_quiet[OF c nf, of cl w] have
    q1: "fl' \<noteq> Exit" and q2: "faults s' = []"
    and q3: "?S \<noteq> [] \<or> ?F \<noteq> [] \<Longrightarrow>
       (case items (queues (forwarder s') qc) of
          [] \<Rightarrow> True
        | x # xs \<Rightarrow> x = - 1 \<or> (\<not> lookup (successes w') x \<and> \<not> lookup (failures w') x))"
    unfolding e by simp_all
  have sub: "set (items (queues (forwarder s') qc)) \<subseteq> set R"
    using r p3 by auto
  have k3': "case items (queues (forwarder s') qc) of
           [] \<Rightarrow> True
         | x # xs \<Rightarrow> \<not> lookup (successes w') x \<and> \<not> lookup (failures w') x"
  proof (cases "?S \<noteq> [] \<or> ?F \<noteq> []")
    case True
    from q3[OF True] sub pos show ?thesis
      by (cases "items (queues (forwarder s') qc)") auto
  next
    case False
    then have "writer_pass cid cl w s = (Waits, w, s)"
      using writer_pass_blocked[OF c] by simp
    with e have "w' = w" "s' = s" by simp_all
    with k3 show ?thesis by (cases "items (queues (forwarder s) qc)") simp_all
  qed
  have vpos: "\<And>t. t \<in> set V \<Longrightarrow> t \<noteq> - 1" using vr pos by auto
  have L: "linv cid (forwarder s') w' (acks @ acks1) R V"
  proof (rule linvI[where qs = qs and qf = qf and qc = qc])
    show "conn_at (forwarder s') cid qs qf qc" by (rule p1)
    show "map fst (acks @ acks1) @ items (queues (forwarder s') qc) = R" using r p3 by simp
    show "sorted_wrt (<) R" by (rule so)
    show "\<forall>r \<in> set R. - 1 < r" by (rule pos)
    show "set V \<subseteq> set R" by (rule vr)
    show "distinct V" by (rule dv)
    show "length (items (queues (forwarder s') qs)) + length (items (queues (forwarder s') qf))
            \<le> length V"
      using len p4 p5 by simp
    show "\<forall>t \<in> set V. t \<in> fst ` set (acks @ acks1) \<or>
             t \<in> set (items (queues (forwarder s') qs)) \<or>
             t \<in> set (items (queues (forwarder s') qf)) \<or>
             lookup (successes w') t \<or> lookup (failures w') t"
    proof
      fix t assume tV: "t \<in> set V"
      from k2 tV have "t \<in> fst ` set acks \<or> t \<in> set ?S \<or> t \<in> set ?F \<or>
             lookup (successes w) t \<or> lookup (failures w) t" by blast
      then have "t \<in> fst ` set acks \<or> t \<in> set (tl ?S) \<or> t \<in> set (tl ?F) \<or>
             (lookup (successes w) t \<or> (t \<in> set (take 1 ?S) \<and> t \<noteq> - 1)) \<or>
             (lookup (failures w) t \<or> (t \<in> set (take 1 ?F) \<and> t \<noteq> - 1))"
        using set_take1_tl[of ?S] set_take1_tl[of ?F] vpos[OF tV] by blast
      then show "t \<in> fst ` set (acks @ acks1) \<or>
             t \<in> set (items (queues (forwarder s') qs)) \<or>
             t \<in> set (items (queues (forwarder s') qf)) \<or>
             lookup (successes w') t \<or> lookup (failures w') t"
        using p8[of t] p9[of t] by (auto simp: p4 p5)
    qed
    show "\<forall>t. t \<in> set (items (queues (forwarder s') qs)) \<or>
             t \<in> set (items (queues (forwarder s') qf)) \<or>
             lookup (successes w') t \<or> lookup (failures w') t \<longrightarrow> t \<in> set V"
    proof (intro allI impI)
      fix t assume a: "t \<in> set (items (queues (forwarder s') qs)) \<or>
             t \<in> set (items (queues (forwarder s') qf)) \<or>
             lookup (successes w') t \<or> lookup (failures w') t"
      then have "t \<in> set (tl ?S) \<or> t \<in> set (tl ?F) \<or>
          lookup (successes w) t \<or> t \<in> set (take 1 ?S) \<or>
          lookup (failures w) t \<or> t \<in> set (take 1 ?F)"
        using p6[of t] p7[of t] by (auto simp: p4 p5)
      then have "t \<in> set ?S \<or> t \<in> set ?F \<or> lookup (successes w) t \<or> lookup (failures w) t"
        using set_take1_tl[of ?S] set_take1_tl[of ?F] by blast
      then show "t \<in> set V" using k4 by blast
    qed
    show "case items (queues (forwarder s') qc) of
           [] \<Rightarrow> True
         | x # xs \<Rightarrow> \<not> lookup (successes w') x \<and> \<not> lookup (failures w') x"
      by (rule k3')
  qed
  have P: "pending cid s' \<le> pending cid s - 1"
    using pending_conn_at[OF c] pending_conn_at[OF p1] p4 p5
    by (cases ?S; cases ?F) simp_all
  from L p2 q1 q2 P show ?thesis by blast
qed

lemma linv_drained:
  assumes l: "linv cid (forwarder s) w acks R V" and all: "set R \<subseteq> set V"
    and z: "pending cid s = 0"
  shows "map fst acks = R"
proof -
  from l obtain qs qf qc where c: "conn_at (forwarder s) cid qs qf qc"
    and r: "map fst acks @ items (queues (forwarder s) qc) = R"
    and so: "sorted_wrt (<) R"
    and k2: "\<forall>t \<in> set V. t \<in> fst ` set acks \<or> t \<in> set (items (queues (forwarder s) qs)) \<or>
             t \<in> set (items (queues (forwarder s) qf)) \<or> lookup (successes w) t \<or>
             lookup (failures w) t"
    and k3: "case items (queues (forwarder s) qc) of
           [] \<Rightarrow> True
         | x # xs \<Rightarrow> \<not> lookup (successes w) x \<and> \<not> lookup (failures w) x"
    by (rule linvE)
  from z have e: "items (queues (forwarder s) qs) = []" "items (queues (forwarder s) qf) = []"
    using pending_conn_at[OF c] by simp_all
  have "items (queues (forwarder s) qc) = []"
  proof (rule ccontr)
    assume "items (queues (forwarder s) qc) \<noteq> []"
    then obtain x xs where x: "items (queues (forwarder s) qc) = x # xs"
      by (cases "items (queues (forwarder s) qc)") auto
    with r have R: "R = map fst acks @ x # xs" by simp
    then have "x \<in> set V" using all by auto
    with k2 e have "x \<in> fst ` set acks \<or> lookup (successes w) x \<or> lookup (failures w) x"
      by auto
    moreover from k3 x have "\<not> lookup (successes w) x \<and> \<not> lookup (failures w) x" by simp
    ultimately have "x \<in> set (map fst acks)" by auto
    moreover from so R have "\<forall>y \<in> set (map fst acks). y < x"
      by (simp add: sorted_wrt_append)
    ultimately show False by auto
  qed
  with r show ?thesis by simp
qed

lemma linv_lengths:
  assumes l: "linv cid (forwarder s) w acks R V"
  shows "pending cid s \<le> length R"
proof -
  from l obtain qs qf qc where c: "conn_at (forwarder s) cid qs qf qc"
    and vr: "set V \<subseteq> set R" and dv: "distinct V"
    and len: "length (items (queues (forwarder s) qs)) + length (items (queues (forwarder s) qf))
               \<le> length V"
    by (rule linvE)
  have "length V = card (set V)" using dv by (simp add: distinct_card)
  also have "\<dots> \<le> card (set R)" using vr by (simp add: card_mono)
  also have "\<dots> \<le> length R" by (rule card_length)
  finally show ?thesis using len pending_conn_at[OF c] by simp
qed

lemma linv_conn_at:
  "linv cid f w acks R V \<Longrightarrow> \<exists>qs qf qc. conn_at f cid qs qf qc"
  unfolding linv_def by blast

lemma linv_sub: "linv cid f w acks R V \<Longrightarrow> set V \<subseteq> set R"
  unfolding linv_def by blast


lemma q_Received:
  "conn_at f cid qs qf qc \<Longrightarrow>
   received_q (Received f cid t) cid = received_q f cid @ [t] \<and>
   success_q (Received f cid t) cid = success_q f cid \<and>
   failure_q (Received f cid t) cid = failure_q f cid"
  using conn_at_Received[of f cid qs qf qc t] q_conn_at[of f cid qs qf qc]
    q_conn_at[of "Received f cid t" cid qs qf qc] by simp

lemma q_ForwardSucc:
  "conn_at f cid qs qf qc \<Longrightarrow>
   received_q (ForwardSucc f cid t) cid = received_q f cid \<and>
   success_q (ForwardSucc f cid t) cid = success_q f cid @ [t] \<and>
   failure_q (ForwardSucc f cid t) cid = failure_q f cid"
  using conn_at_ForwardSucc[of f cid qs qf qc t] q_conn_at[of f cid qs qf qc]
    q_conn_at[of "ForwardSucc f cid t" cid qs qf qc] by simp

lemma q_ForwardFail:
  "conn_at f cid qs qf qc \<Longrightarrow>
   received_q (ForwardFail f cid t) cid = received_q f cid \<and>
   success_q (ForwardFail f cid t) cid = success_q f cid \<and>
   failure_q (ForwardFail f cid t) cid = failure_q f cid @ [t]"
  using conn_at_ForwardFail[of f cid qs qf qc t] q_conn_at[of f cid qs qf qc]
    q_conn_at[of "ForwardFail f cid t" cid qs qf qc] by simp

lemma live_invI:
  assumes "c_acked c = map ack_frame acks"
    and "linv cid (forwarder (c_sys c)) (c_writer c) acks (c_reg c) (c_verd c)"
    and "faults (c_sys c) = []" and "c_flow c \<noteq> Exit"
    and "- 1 \<le> previous (c_h c)" and "\<forall>r \<in> set (c_reg c). r \<le> previous (c_h c)"
  shows "live_inv cid c"
  unfolding live_inv_def using assms by blast

lemma live_invE:
  assumes "live_inv cid c"
  obtains acks where "c_acked c = map ack_frame acks"
    and "linv cid (forwarder (c_sys c)) (c_writer c) acks (c_reg c) (c_verd c)"
    and "faults (c_sys c) = []" and "c_flow c \<noteq> Exit"
    and "- 1 \<le> previous (c_h c)" and "\<forall>r \<in> set (c_reg c). r \<le> previous (c_h c)"
  using assms unfolding live_inv_def by (elim exE conjE) (rule that)

lemma live_inv_eq:
  assumes "live_inv cid c" and "c_reg c' = c_reg c" and "c_verd c' = c_verd c"
    and "c_acked c' = c_acked c" and "forwarder (c_sys c') = forwarder (c_sys c)"
    and "c_writer c' = c_writer c" and "faults (c_sys c') = []" and "c_flow c' = c_flow c"
    and "previous (c_h c) \<le> previous (c_h c')"
  shows "live_inv cid c'"
proof -
  from assms(1) obtain acks where a: "c_acked c = map ack_frame acks"
    and l: "linv cid (forwarder (c_sys c)) (c_writer c) acks (c_reg c) (c_verd c)"
    and fl: "c_flow c \<noteq> Exit"
    and b: "- 1 \<le> previous (c_h c)" and r: "\<forall>r \<in> set (c_reg c). r \<le> previous (c_h c)"
    by (rule live_invE)
  show ?thesis
    apply (rule live_invI[where acks = acks])
    using a l fl b r assms(2-9) by auto
qed

lemma live_step_frame:
  assumes i: "live_inv cid c" and cid: "ctx_connID ctx = cid"
  shows "live_inv cid (conn_step ctx (EvFrame tok) c)"
proof (cases "c_hflow c \<noteq> Next \<or> c_returned c")
  case True
  then show ?thesis using i by auto
next
  case False
  obtain fl h' where hf: "handle_frame ctx (c_h c) tok = (fl, h')"
    by (cases "handle_frame ctx (c_h c) tok") auto
  let ?f = "forwarder (c_sys c)"
  let ?c' = "observe cid ?f (c\<lparr>c_h := h', c_hflow := fl,
                     c_pending := (if fl = Waits then Some (build_raw ctx (c_sys c) tok)
                                   else None)\<rparr>)"
  have st: "conn_step ctx (EvFrame tok) c = ?c'" using False hf cid by simp
  note k = handle_frame_cases[OF hf, unfolded cid c_sys_def[symmetric]]
  from i obtain acks where a: "c_acked c = map ack_frame acks"
    and l: "linv cid ?f (c_writer c) acks (c_reg c) (c_verd c)"
    and nf: "faults (c_sys c) = []" and cf: "c_flow c \<noteq> Exit"
    and b: "- 1 \<le> previous (c_h c)" and r: "\<forall>r \<in> set (c_reg c). r \<le> previous (c_h c)"
    by (rule live_invE)
  from linv_conn_at[OF l] obtain qs qf qc where at: "conn_at ?f cid qs qf qc" by blast
  have pl: "previous (c_h c) \<le> previous h'" using k by simp
  have nf': "faults (st h') = []" using k nf by simp
  have fw: "forwarder (c_sys ?c') = forwarder (st h')" by simp
  have rg: "c_reg ?c' = c_reg c @ drop (length (received_q ?f cid)) (received_q (forwarder (st h')) cid)"
    by (simp add: observe_reg)
  have vd: "c_verd ?c' = c_verd c @
       drop (length (success_q ?f cid)) (success_q (forwarder (st h')) cid) @
       drop (length (failure_q ?f cid)) (failure_q (forwarder (st h')) cid)"
    by (simp add: observe_verd)
  from k consider (same) "forwarder (st h') = ?f"
    | (rcv) "previous (c_h c) < previous h'" "forwarder (st h') = Received ?f cid (previous h')"
    | (both) "previous (c_h c) < previous h'"
        "forwarder (st h') = ForwardSucc (Received ?f cid (previous h')) cid (previous h')"
    by blast
  then show ?thesis
  proof cases
    case same
    show ?thesis unfolding st
      by (rule live_inv_eq[OF i]) (simp_all add: rg vd same nf' pl)
  next
    case rcv
    let ?t = "previous h'"
    have g: "\<forall>r \<in> set (c_reg c). r < ?t" using r rcv(1) by auto
    have p: "- 1 < ?t" using b rcv(1) by simp
    note L = linv_received[OF l p g]
    note Q = q_Received[OF at, of ?t]
    have rg': "c_reg ?c' = c_reg c @ [?t]" unfolding rg rcv(2) using Q by simp
    have vd': "c_verd ?c' = c_verd c" unfolding vd rcv(2) using Q by simp
    show ?thesis unfolding st
      apply (rule live_invI[where acks = acks])
      using a L nf' cf p r rcv(1) by (simp_all add: rg' vd' rcv(2)) auto
  next
    case both
    let ?t = "previous h'"
    have g: "\<forall>r \<in> set (c_reg c). r < ?t" using r both(1) by auto
    have p: "- 1 < ?t" using b both(1) by simp
    note L1 = linv_received[OF l p g]
    have tv: "?t \<notin> set (c_verd c)" using linv_sub[OF l] g by auto
    note L = linv_succ[OF L1 _ tv]
    note Q1 = q_Received[OF at, of ?t]
    from conn_at_Received[OF at, of ?t] have at1: "conn_at (Received ?f cid ?t) cid qs qf qc"
      by simp
    note Q2 = q_ForwardSucc[OF at1, of ?t]
    have rg': "c_reg ?c' = c_reg c @ [?t]" unfolding rg both(2) using Q1 Q2 by simp
    have vd': "c_verd ?c' = c_verd c @ [?t]" unfolding vd both(2) using Q1 Q2 by simp
    show ?thesis unfolding st
      apply (rule live_invI[where acks = acks])
      using a L nf' cf p r both(1) by (simp_all add: rg' vd' both(2)) auto
  qed
qed

lemma live_step_verdict:
  assumes i: "live_inv cid c" and cid: "ctx_connID ctx = cid"
    and tr: "t \<in> set (c_reg c)" and tv: "t \<notin> set (c_verd c)"
  shows "live_inv cid (conn_step ctx (EvSucc t) c) \<and> live_inv cid (conn_step ctx (EvFail t) c)"
proof -
  let ?f = "forwarder (c_sys c)"
  from i obtain acks where a: "c_acked c = map ack_frame acks"
    and l: "linv cid ?f (c_writer c) acks (c_reg c) (c_verd c)"
    and nf: "faults (c_sys c) = []" and cf: "c_flow c \<noteq> Exit"
    and b: "- 1 \<le> previous (c_h c)" and r: "\<forall>r \<in> set (c_reg c). r \<le> previous (c_h c)"
    by (rule live_invE)
  from linv_conn_at[OF l] obtain qs qf qc where at: "conn_at ?f cid qs qf qc" by blast
  note QS = q_ForwardSucc[OF at, of t] and QF = q_ForwardFail[OF at, of t]
  have "live_inv cid (conn_step ctx (EvSucc t) c)"
    apply (rule live_invI[where acks = acks])
    using a linv_succ[OF l tr tv] nf cf b r QS
    by (simp_all add: cid observe_reg observe_verd)
  moreover have "live_inv cid (conn_step ctx (EvFail t) c)"
    apply (rule live_invI[where acks = acks])
    using a linv_fail[OF l tr tv] nf cf b r QF
    by (simp_all add: cid observe_reg observe_verd)
  ultimately show ?thesis ..
qed

lemma live_step_writer:
  assumes i: "live_inv cid c" and cid: "ctx_connID ctx = cid"
  shows "live_inv cid (conn_step ctx EvWriter c) \<and>
         c_reg (conn_step ctx EvWriter c) = c_reg c \<and>
         c_verd (conn_step ctx EvWriter c) = c_verd c \<and>
         pending cid (c_sys (conn_step ctx EvWriter c)) \<le> pending cid (c_sys c) - 1"
proof -
  from i obtain acks where a: "c_acked c = map ack_frame acks"
    and l: "linv cid (forwarder (c_sys c)) (c_writer c) acks (c_reg c) (c_verd c)"
    and nf: "faults (c_sys c) = []" and cf: "c_flow c \<noteq> Exit"
    and b: "- 1 \<le> previous (c_h c)" and r: "\<forall>r \<in> set (c_reg c). r \<le> previous (c_h c)"
    by (rule live_invE)
  let ?cl = "ctx_client ctx"
  obtain fl w s where e: "writer_pass cid ?cl (c_writer c) (c_sys c) = (fl, w, s)"
    by (cases "writer_pass cid ?cl (c_writer c) (c_sys c)") auto
  from linv_writer[OF l nf e] obtain acks1 where
    L: "linv cid (forwarder s) w (acks @ acks1) (c_reg c) (c_verd c)"
    and w': "wire s = wire (c_sys c) @ map ack_frame acks1"
    and ne: "fl \<noteq> Exit" and nf': "faults s = []"
    and P: "pending cid s \<le> pending cid (c_sys c) - 1" by blast
  let ?c' = "(set_sys s c)\<lparr>c_writer := w, c_flow := fl,
                   c_acked := c_acked c @ drop (length (wire (c_sys c))) (wire s)\<rparr>"
  have st: "conn_step ctx EvWriter c = ?c'" using cf e cid ne by simp
  have "live_inv cid ?c'"
    apply (rule live_invI[where acks = "acks @ acks1"])
    using a L nf' ne b r by (simp_all add: w')
  then show ?thesis unfolding st using P by simp
qed

lemma live_step_other:
  assumes i: "live_inv cid c"
  shows "live_inv cid (conn_step ctx EvGet c)" and "live_inv cid (conn_step ctx EvUnblock c)"
proof -
  from i have nf: "faults (c_sys c) = []" by (rule live_invE)
  show "live_inv cid (conn_step ctx EvGet c)"
    by (rule live_inv_eq[OF i])
      (simp_all add: nf split: option.splits blocking.splits prod.splits)
  show "live_inv cid (conn_step ctx EvUnblock c)"
  proof (cases "c_pending c")
    case None
    then show ?thesis using i by simp
  next
    case (Some raw)
    obtain fl s' where e: "retry_put ctx raw (c_sys c) = (fl, s')"
      by (cases "retry_put ctx raw (c_sys c)") auto
    from retry_put_keeps[of ctx raw "c_sys c"] e
    have k: "forwarder s' = forwarder (c_sys c)" "faults s' = faults (c_sys c)"
      by simp_all
    show ?thesis
      by (rule live_inv_eq[OF i]) (simp_all add: Some e k nf)
  qed
qed

lemma live_run:
  "sched_ok ctx evs c \<Longrightarrow> live_inv cid c \<Longrightarrow> ctx_connID ctx = cid \<Longrightarrow>
   live_inv cid (conn_run ctx evs c) \<and>
   set (c_reg (conn_run ctx evs c)) \<subseteq> set (c_verd (conn_run ctx evs c))"
proof (induction evs arbitrary: c)
  case Nil
  then show ?case by (auto simp: conn_run_def list_all_iff)
next
  case (Cons ev evs)
  from Cons.prems(1) have ok: "ok_event ev c" and s: "sched_ok ctx evs (conn_step ctx ev c)"
    by simp_all
  have "live_inv cid (conn_step ctx ev c)"
  proof (cases ev)
    case (EvFrame tok)
    then show ?thesis using live_step_frame[OF Cons.prems(2,3)] by simp
  next
    case EvUnblock
    then show ?thesis using live_step_other[OF Cons.prems(2)] by simp
  next
    case EvReturn
    then show ?thesis using ok by simp
  next
    case EvGet
    then show ?thesis using live_step_other[OF Cons.prems(2)] by simp
  next
    case (EvSucc t)
    then show ?thesis using ok live_step_verdict[OF Cons.prems(2,3), of t] by simp
  next
    case (EvFail t)
    then show ?thesis using ok live_step_verdict[OF Cons.prems(2,3), of t] by simp
  next
    case EvWriter
    then show ?thesis using live_step_writer[OF Cons.prems(2,3)] by simp
  next
    case EvRemoveAll
    then show ?thesis using ok by simp
  qed
  from Cons.IH[OF s this Cons.prems(3)] show ?case unfolding conn_run_Cons .
qed

lemma live_drain:
  "live_inv cid c \<Longrightarrow> ctx_connID ctx = cid \<Longrightarrow> set (c_reg c) \<subseteq> set (c_verd c) \<Longrightarrow>
   pending cid (c_sys c) \<le> n \<Longrightarrow>
   \<exists>acks. c_acked (conn_run ctx (replicate n EvWriter) c) = map ack_frame acks \<and>
          map fst acks = c_reg c \<and> c_reg (conn_run ctx (replicate n EvWriter) c) = c_reg c"
proof (induction n arbitrary: c)
  case 0
  from "0.prems"(1) obtain acks where a: "c_acked c = map ack_frame acks"
    and l: "linv cid (forwarder (c_sys c)) (c_writer c) acks (c_reg c) (c_verd c)"
    by (rule live_invE)
  from linv_drained[OF l "0.prems"(3)] "0.prems"(4) a show ?case
    by (auto simp add: conn_run_def)
next
  case (Suc n)
  note w = live_step_writer[OF Suc.prems(1,2)]
  let ?c = "conn_step ctx EvWriter c"
  have 1: "live_inv cid ?c" by (rule conjunct1[OF w])
  have 4: "c_reg ?c = c_reg c" by (rule conjunct1[OF conjunct2[OF w]])
  have 5: "c_verd ?c = c_verd c" by (rule conjunct1[OF conjunct2[OF conjunct2[OF w]]])
  have 6: "pending cid (c_sys ?c) \<le> pending cid (c_sys c) - 1"
    by (rule conjunct2[OF conjunct2[OF conjunct2[OF w]]])
  have 2: "set (c_reg ?c) \<subseteq> set (c_verd ?c)" unfolding 4 5 by (rule Suc.prems(3))
  have 3: "pending cid (c_sys ?c) \<le> n" using 6 Suc.prems(4) by linarith
  have rp: "conn_run ctx (replicate (Suc n) EvWriter) c = conn_run ctx (replicate n EvWriter) ?c"
    by (simp add: conn_run_def)
  from Suc.IH[OF 1 Suc.prems(2) 2 3] show ?case
    unfolding 4 rp .
qed

lemma live_start:
  assumes "faults s = []"
  shows "live_inv (ctx_connID (fst (conn_start ctx s))) (snd (conn_start ctx s))"
proof -
  let ?f = "forwarder s"
  note a = conn_at_AddConn[of ?f]
  have l: "linv (fst (AddConn ?f)) (snd (AddConn ?f)) new_writer [] [] []"
    apply (rule linvI[where qs = "nqueues ?f" and qf = "nqueues ?f + 1" and qc = "nqueues ?f + 2"])
    using a by (simp_all add: new_writer_def)
  show ?thesis
    apply (rule live_invI[where acks = "[]"])
    using l assms by (simp_all add: conn_start_ctx conn_start_sys conn_start_fields)
qed

lemma live_pending:
  assumes "live_inv cid c"
  shows "pending cid (c_sys c) \<le> length (c_reg c)"
proof -
  from assms obtain acks where
    l: "linv cid (forwarder (c_sys c)) (c_writer c) acks (c_reg c) (c_verd c)"
    by (rule live_invE)
  from linv_lengths[OF l] show ?thesis .
qed

lemma prefix_sorted_wrt: "prefix xs ys \<Longrightarrow> sorted_wrt P ys \<Longrightarrow> sorted_wrt P xs"
  by (auto simp: prefix_def sorted_wrt_append)

lemma conn_safe:
  "\<exists>acks w. c_acked (conn_life ctx s evs) = map ack_frame acks \<and>
      prefix (map fst acks) (c_reg (conn_life ctx s evs)) \<and>
      sorted_wrt (<) (c_reg (conn_life ctx s evs)) \<and>
      sorted_wrt (<) (map fst acks) \<and>
      wire (c_sys (conn_life ctx s evs)) = wire s @ w \<and> subseq (map ack_frame acks) w"
proof -
  let ?c = "conn_life ctx s evs"
  note st = safe_start[of ctx s]
  from safe_run[OF conjunct1[OF st] refl conjunct2[OF st], of evs]
  have i: "safe_inv (ctx_connID (fst (conn_start ctx s))) ?c" and w: "wire_inv (wire s) ?c"
    unfolding conn_life_def by simp_all
  from i obtain acks where a: "c_acked ?c = map ack_frame acks"
    and p: "prefix (map fst acks) (c_reg ?c)" and so: "sorted_wrt (<) (c_reg ?c)"
    by (rule safe_invE)
  from w obtain u where u: "wire (c_sys ?c) = wire s @ u" and v: "subseq (c_acked ?c) u"
    unfolding wire_inv_def by blast
  from a p so prefix_sorted_wrt[OF p so] u v show ?thesis by auto
qed

lemma conn_complete:
  assumes ok: "conn_fair ctx s evs" and nf: "faults s = []"
    and n: "length (c_reg (conn_life ctx s evs)) \<le> n"
  shows "\<exists>acks. c_acked (conn_life ctx s (evs @ replicate n EvWriter)) = map ack_frame acks \<and>
           map fst acks = c_reg (conn_life ctx s evs) \<and>
           c_reg (conn_life ctx s (evs @ replicate n EvWriter)) = c_reg (conn_life ctx s evs)"
proof -
  let ?ctx = "fst (conn_start ctx s)" and ?c0 = "snd (conn_start ctx s)"
  from live_run[OF ok[unfolded conn_fair_def] live_start[OF nf] refl]
  have l: "live_inv (ctx_connID ?ctx) (conn_run ?ctx evs ?c0)"
    and v: "set (c_reg (conn_run ?ctx evs ?c0)) \<subseteq> set (c_verd (conn_run ?ctx evs ?c0))"
    by simp_all
  from live_pending[OF l] n
  have p: "pending (ctx_connID ?ctx) (c_sys (conn_run ?ctx evs ?c0)) \<le> n"
    by (simp add: conn_life_def)
  from live_drain[OF l refl v p] show ?thesis
    unfolding conn_life_def conn_run_append .
qed

text \<open>
  The handler's part of a life of a connection is \<open>HandleConnection\<close>: when the handler
  takes the tokens one after the other and then runs its deferred function, with
  nothing else in between, the service is left as \<open>HandleConnection\<close> leaves it.
\<close>

lemma conn_run_frames_stop:
  "c_hflow c \<noteq> Next \<Longrightarrow> conn_run ctx (map EvFrame toks) c = c"
  by (induction toks) (simp_all add: conn_run_def)

lemma conn_run_frames:
  "c_hflow c = Next \<Longrightarrow> \<not> c_returned c \<Longrightarrow>
   c_h (conn_run ctx (map EvFrame toks) c) = snd (handle_loop ctx (c_h c) toks) \<and>
   c_hflow (conn_run ctx (map EvFrame toks) c) = fst (handle_loop ctx (c_h c) toks) \<and>
   \<not> c_returned (conn_run ctx (map EvFrame toks) c)"
proof (induction toks arbitrary: c)
  case Nil
  then show ?case by (simp add: conn_run_def)
next
  case (Cons tok toks)
  obtain fl h' where hf: "handle_frame ctx (c_h c) tok = (fl, h')"
    by (cases "handle_frame ctx (c_h c) tok") auto
  let ?c = "conn_step ctx (EvFrame tok) c"
  have s: "c_h ?c = h'" "c_hflow ?c = fl" "\<not> c_returned ?c"
    using Cons.prems hf by simp_all
  show ?case
  proof (cases "fl = Next")
    case True
    from Cons.IH[of ?c] s True show ?thesis
      by (simp add: conn_run_Cons hf)
  next
    case False
    have "conn_run ctx (map EvFrame (tok # toks)) c = ?c"
      using conn_run_frames_stop[of ?c ctx toks] s False by (simp add: conn_run_Cons)
    then show ?thesis using s False hf by (cases fl) simp_all
  qed
qed

lemma conn_life_HandleConnection:
  assumes "fst (HandleConnection ctx toks s) \<noteq> Waits"
  shows "c_sys (conn_life ctx s (map EvFrame toks @ [EvReturn])) = snd (HandleConnection ctx toks s)"
proof -
  let ?ctx = "fst (conn_start ctx s)" and ?c0 = "snd (conn_start ctx s)"
  have c0: "c_hflow ?c0 = Next" "\<not> c_returned ?c0" "c_h ?c0 = snd (handler_start ctx s)"
    and cx: "?ctx = fst (handler_start ctx s)"
    by (simp_all add: conn_start_def)
  note f = conn_run_frames[OF c0(1,2), of ?ctx toks, unfolded c0(3) cx]
  obtain fl h where hl: "handle_loop (fst (handler_start ctx s)) (snd (handler_start ctx s)) toks = (fl, h)"
    by (cases "handle_loop (fst (handler_start ctx s)) (snd (handler_start ctx s)) toks") auto
  from assms have nw: "fl \<noteq> Waits"
    by (auto simp add: HandleConnection_alt hl split: if_splits)
  show ?thesis
    unfolding conn_life_def conn_run_append cx
    using f nw by (simp add: conn_run_def HandleConnection_alt hl c_sys_def set_sys_def)
qed

text \<open>
  The claim C1 as it is written fails in two places. Where it promises an answer for
  every accepted TXNR before the connection is closed: the handler returns on \<open>close\<close>
  without waiting for the answers that are due. Here the client opens, sends the frame
  2 with data and closes. The handler registers TXNR 2 (it is the next to commit), puts
  the raw message on the queue, answers the close and removes the connection. The worker
  that parses the message afterwards sends its verdict for a connection that is gone,
  and the writer leaves its loop at its next pass: the only frames on the connection are
  the answers to \<open>open\<close> and to \<open>close\<close>, and no \<open>rsp\<close> for TXNR 2. And where it has
  the TXNRs of the \<open>rsp\<close> frames increase on the wire: the handler writes its answers to
  \<open>open\<close> and to \<open>close\<close>, which are \<open>rsp\<close> frames, itself. When, with the same frames,
  the worker and the writer come after the answer to \<open>close\<close> was written and before the
  deferred function of the handler has run, the \<open>rsp\<close> frames on the connection have the
  TXNRs 1, 3, 2 in this order.
\<close>

theorem close_drops_pending_rsp:
  "NextToCommit (forwarder (st (snd (handle_loop ex_ctx ex_h
       [''1 open 0'', ''2 syslog 5 hello''])))) 1 = 2 \<and>
   fst (HandleConnection ex_ctx [''1 open 0'', ''2 syslog 5 hello'', ''3 close 0''] ex_sys) = Exit \<and>
   wire (snd (HandleConnection ex_ctx [''1 open 0'', ''2 syslog 5 hello'', ''3 close 0''] ex_sys)) =
     [''1 rsp 7 200 OK'' @ [CHR 0x0A, CHR 0x0A],
      ''3 rsp 0'' @ [CHR 0x0A] @ ''0 serverclose 0'' @ [CHR 0x0A]] \<and>
   (case Parse_step ex_env 0
           (snd (HandleConnection ex_ctx [''1 open 0'', ''2 syslog 5 hello'', ''3 close 0''] ex_sys)) of
      (effs, fl, gen, s') \<Rightarrow>
        verdicts effs = [(True, 1, 2)] \<and>
        fst (writer_pass 1 ''10.0.0.7'' new_writer s') = Exit \<and>
        wire (snd (snd (writer_pass 1 ''10.0.0.7'' new_writer s'))) =
          [''1 rsp 7 200 OK'' @ [CHR 0x0A, CHR 0x0A],
           ''3 rsp 0'' @ [CHR 0x0A] @ ''0 serverclose 0'' @ [CHR 0x0A]]) \<and>
   (case handle_loop ex_ctx ex_h [''1 open 0'', ''2 syslog 5 hello'', ''3 close 0''] of
      (fl, h) \<Rightarrow>
        fl = Exit \<and>
        (case Parse_step ex_env 0 (st h) of
           (effs, fl', gen, s') \<Rightarrow>
             verdicts effs = [(True, 1, 2)] \<and>
             wire (snd (snd (writer_pass 1 ''10.0.0.7'' new_writer s'))) =
               [''1 rsp 7 200 OK'' @ [CHR 0x0A, CHR 0x0A],
                ''3 rsp 0'' @ [CHR 0x0A] @ ''0 serverclose 0'' @ [CHR 0x0A],
                ''2 rsp 6 200 OK'' @ [CHR 0x0A]]))"
  by (simp add: eval_defs eval_splits HandleConnection_alt handler_exit_def RemoveConn_def
      Dispose_def NextToCommit_def Peek_def Parse_step_def Parse_body_def RingGet_def ex_env_def
      PoolPut_def verdicts_def List.map_filter_simps writer_pass_def Wait_def WaitOne_def
      GetSucc_def GetFail_def Get_def cooking.simps lookup_def new_writer_def success_reply_def
      failure_reply_def answers_inc_def Commit_def)

lemma SplitN_syslog3: "SplitN ''3 syslog 0'' sp 4 = [''3'', ''syslog'', ''0'']"
  by (simp add: sp_def numeral_eq_Suc)

lemmas run_defs = conn_life_def conn_fair_def conn_start_def conn_run_def c_sys_def set_sys_def
  observe_def received_q_def success_q_def failure_q_def build_raw_def retry_put_def
  writer_pass_def Wait_def WaitOne_def GetSucc_def GetFail_def Get_def cooking.simps lookup_def
  new_writer_def success_reply_def failure_reply_def answers_inc_def Commit_def NextToCommit_def
  Peek_def RingGet_def frame_data_def frame_txnr_def

text \<open>
  C1, amended. Take a connection from its start on, with any events in any order (the
  handler takes a token, goes on after a \<open>Put\<close> that waited or returns; a worker takes
  a raw message or sends a verdict, for any TXNR; the writer makes a pass; the forwarder
  forgets the connections) and any results of the writes. The frames that the response
  writer has written are \<open>rsp\<close> frames (\<open>TXNR rsp 6 200 OK\<close> or \<open>TXNR rsp 6 500 KO\<close>)
  whose TXNRs are an initial part of the TXNRs that \<open>Received\<close> has put into the
  received queue, in the order of registration, each once, whatever the order of the
  verdicts; the TXNRs registered increase strictly, so those of the writer's frames do;
  and the writer's frames are on the connection in this order, among the answers that
  the handler writes itself. When moreover the connection is not removed (the handler
  has not returned, the forwarder has not forgotten the connections), the writes
  succeed, each verdict of a worker is for a TXNR that is registered and has no verdict
  yet, every registered TXNR has a verdict in the end, and the writer then makes at least
  as many passes as TXNRs were registered, the TXNRs of the writer's frames are exactly
  the registered ones: every registered TXNR has exactly one \<open>rsp\<close> frame of the writer.
\<close>

theorem rsp_in_received_order:
  "(\<exists>acks w. c_acked (conn_life ctx s evs) = map ack_frame acks \<and>
      prefix (map fst acks) (c_reg (conn_life ctx s evs)) \<and>
      sorted_wrt (<) (c_reg (conn_life ctx s evs)) \<and>
      sorted_wrt (<) (map fst acks) \<and>
      wire (c_sys (conn_life ctx s evs)) = wire s @ w \<and> subseq (map ack_frame acks) w) \<and>
   (conn_fair ctx s evs \<and> faults s = [] \<and> length (c_reg (conn_life ctx s evs)) \<le> n \<longrightarrow>
    (\<exists>acks. c_acked (conn_life ctx s (evs @ replicate n EvWriter)) = map ack_frame acks \<and>
       map fst acks = c_reg (conn_life ctx s evs) \<and>
       c_reg (conn_life ctx s (evs @ replicate n EvWriter)) = c_reg (conn_life ctx s evs)))"
  using conn_safe[of ctx s evs] conn_complete[of ctx s evs n] by blast

theorem rsp_in_received_order_witness:
  "\<exists>acks. c_acked (conn_life ex_ctx ex_sys
              ([EvFrame ''1 open 0'', EvFrame ''2 syslog 5 hello'', EvFrame ''3 syslog 0'',
                EvWriter, EvGet, EvFail 2] @ replicate 2 EvWriter)) = map ack_frame acks \<and>
          map fst acks = [2, 3]"
proof -
  let ?evs = "[EvFrame ''1 open 0'', EvFrame ''2 syslog 5 hello'', EvFrame ''3 syslog 0'',
                EvWriter, EvGet, EvFail 2]"
  have r: "c_reg (conn_life ex_ctx ex_sys ?evs) = [2, 3]"
    by (simp add: run_defs eval_defs eval_splits SplitN_syslog3)
  have f: "conn_fair ex_ctx ex_sys ?evs"
    by (simp add: run_defs eval_defs eval_splits SplitN_syslog3)
  have h: "conn_fair ex_ctx ex_sys ?evs \<and> faults ex_sys = [] \<and>
           length (c_reg (conn_life ex_ctx ex_sys ?evs)) \<le> 2"
    using f unfolding r by (simp add: ex_sys_def NewRelpServiceImpl_def)
  from conjunct2[OF rsp_in_received_order[of ex_ctx ex_sys ?evs 2], THEN mp, OF h]
  obtain acks where
    "c_acked (conn_life ex_ctx ex_sys (?evs @ replicate 2 EvWriter)) = map ack_frame acks"
    and "map fst acks = c_reg (conn_life ex_ctx ex_sys ?evs)"
    by (elim exE conjE)
  then show ?thesis unfolding r by (intro exI[of _ acks]) simp
qed

end
